theory Spec2Isabelle
  imports Complex_Main "HOL-Library.Char_ord" "HOL-Library.List_Lexorder"
begin

section \<open>Text primitives of the Python runtime\<close>

text \<open>
  Page text is modelled as \<open>string\<close>, one \<open>char\<close> per code point, for text whose code
  points are below 256. The operations below are the \<open>str\<close> methods and operators that
  \<open>html_to_json.py\<close> uses, as they act on such text.
\<close>

definition lower_char :: "char \<Rightarrow> char" where
  \<comment> \<open>the letters A to Z and the accented capitals 192 to 222, without the sign 215\<close>
  "lower_char c =
     (let n = (of_char c :: nat)
      in if (65 \<le> n \<and> n \<le> 90) \<or> (192 \<le> n \<and> n \<le> 222 \<and> n \<noteq> 215) then char_of (n + 32) else c)"

definition lower :: "string \<Rightarrow> string" where
  \<comment> \<open>\<open>s.lower()\<close>\<close>
  "lower s = map lower_char s"

fun startswith :: "string \<Rightarrow> string \<Rightarrow> bool" where
  \<comment> \<open>\<open>s.startswith(p)\<close>\<close>
  "startswith s [] = True"
| "startswith [] (p # ps) = False"
| "startswith (c # cs) (p # ps) = (c = p \<and> startswith cs ps)"

fun str_in :: "string \<Rightarrow> string \<Rightarrow> bool" where
  \<comment> \<open>\<open>k in text\<close> on two strings: \<open>k\<close> occurs in \<open>text\<close> as a contiguous run\<close>
  "str_in k [] = (k = [])"
| "str_in k (c # cs) = (startswith (c # cs) k \<or> str_in k cs)"

definition is_space :: "char \<Rightarrow> bool" where
  \<comment> \<open>\<open>\<bsol>s\<close> of \<open>re\<close> and \<open>str.isspace\<close>: tab, LF, VT, FF, CR, FS, GS, RS, US, space,
      and of the code points from 128 on, NEL (133) and the no-break space (160)\<close>
  "is_space c =
     (let n = (of_char c :: nat)
      in (9 \<le> n \<and> n \<le> 13) \<or> (28 \<le> n \<and> n \<le> 32) \<or> n = 133 \<or> n = 160)"

definition is_digit :: "char \<Rightarrow> bool" where
  \<comment> \<open>\<open>\<bsol>d\<close> of \<open>re\<close>: below 256 the decimal digits are 0 to 9\<close>
  "is_digit c = (let n = (of_char c :: nat) in 48 \<le> n \<and> n \<le> 57)"

function sub_spaces :: "string \<Rightarrow> string" where
  \<comment> \<open>\<open>re.sub(r"\s+", " ", text)\<close>: every maximal run of whitespace becomes one space\<close>
  "sub_spaces [] = []"
| "sub_spaces (c # cs) =
     (if is_space c then CHR '' '' # sub_spaces (dropWhile is_space cs) else c # sub_spaces cs)"
  by pat_completeness auto
termination
  by (relation "measure length") (auto simp: less_Suc_eq_le length_dropWhile_le)

definition strip :: "string \<Rightarrow> string" where
  \<comment> \<open>\<open>s.strip()\<close>\<close>
  "strip s = rev (dropWhile is_space (rev (dropWhile is_space s)))"

definition clean :: "string \<Rightarrow> string" where
  "clean text = strip (sub_spaces text)"

fun join :: "string \<Rightarrow> string list \<Rightarrow> string" where
  \<comment> \<open>\<open>sep.join(xs)\<close>\<close>
  "join sep [] = []"
| "join sep [x] = x"
| "join sep (x # y # zs) = x @ sep @ join sep (y # zs)"

section \<open>Python floats\<close>

text \<open>
  A Python \<open>float\<close> is an IEEE 754 binary64 number. A finite one is modelled by the rational
  it denotes; \<open>round_double\<close> rounds a rational to the nearest double, ties to even, as
  every correctly rounded operation of the runtime does (\<open>float(str)\<close>, a float literal,
  subtraction). \<open>repr\<close> is the shortest decimal string that reads back as the same double,
  which is also what an f-string prints for \<open>{mm}\<close>.
\<close>

datatype pyfloat = Fin rat | PInf | NInf | NaN

datatype error = ValueError

function width :: "int \<Rightarrow> int \<Rightarrow> int" where
  \<comment> \<open>the number of base-\<open>b\<close> digits of \<open>n\<close>\<close>
  "width b n = (if n \<le> 0 \<or> b < 2 then 0 else 1 + width b (n div b))"
  by pat_completeness auto
termination
  by (relation "measure (\<lambda>(b, n). nat n)") (auto intro!: int_div_less_self)

definition pw :: "int \<Rightarrow> int \<Rightarrow> rat" where
  \<comment> \<open>\<open>b\<close> to an integer power, negative powers included\<close>
  "pw b e = (if 0 \<le> e then of_int b ^ nat e else 1 / of_int b ^ nat (- e))"

definition above :: "int \<Rightarrow> rat \<Rightarrow> int \<Rightarrow> int" where
  \<comment> \<open>\<open>e\<close>, or \<open>e + 1\<close> when \<open>q\<close> reaches the next power of \<open>b\<close>\<close>
  "above b q e = (if pw b (e + 1) \<le> q then e + 1 else e)"

definition floor_log :: "int \<Rightarrow> rat \<Rightarrow> int" where
  \<comment> \<open>for \<open>0 < q\<close>: the \<open>e\<close> with \<open>b ^ e \<le> q < b ^ (e + 1)\<close>, read off the digits of the
      integer part of \<open>q\<close>, or of its reciprocal when \<open>q < 1\<close>\<close>
  "floor_log b q =
     (if 1 \<le> q then width b \<lfloor>q\<rfloor> - 1 else above b q (- width b \<lfloor>1 / q\<rfloor>))"

definition nearest_even :: "int \<Rightarrow> rat \<Rightarrow> int" where
  \<comment> \<open>\<open>f\<close> or \<open>f + 1\<close>, whichever is nearer to \<open>f + d\<close>; the even one at \<open>d = 1/2\<close>\<close>
  "nearest_even f d =
     (if d < 1 / 2 then f else if 1 / 2 < d then f + 1 else if even f then f else f + 1)"

definition round_half_even :: "rat \<Rightarrow> int" where
  "round_half_even q = nearest_even \<lfloor>q\<rfloor> (q - of_int \<lfloor>q\<rfloor>)"

definition exponent :: "rat \<Rightarrow> int" where
  \<comment> \<open>the exponent of the last of 53 significant bits of \<open>a\<close>, at least \<open>-1074\<close> (subnormals)\<close>
  "exponent a = max (floor_log 2 a - 52) (- 1074)"

definition mantissa :: "rat \<Rightarrow> int \<Rightarrow> int" where
  "mantissa a e = round_half_even (a / pw 2 e)"

definition pack :: "bool \<Rightarrow> int \<Rightarrow> int \<Rightarrow> pyfloat" where
  \<comment> \<open>the double \<open>m * 2 ^ e\<close> with its sign; infinity once it needs more than 1024 bits\<close>
  "pack neg m e =
     (if 1024 < e + width 2 m then (if neg then NInf else PInf)
      else Fin (if neg then - (of_int m * pw 2 e) else of_int m * pw 2 e))"

definition round_double :: "rat \<Rightarrow> pyfloat" where
  \<comment> \<open>the double nearest to \<open>q\<close>, ties to even\<close>
  "round_double q =
     (if q = 0 then Fin 0 else pack (q < 0) (mantissa \<bar>q\<bar> (exponent \<bar>q\<bar>)) (exponent \<bar>q\<bar>))"

definition float_lit :: "rat \<Rightarrow> pyfloat" where
  \<comment> \<open>a float literal of the source text\<close>
  "float_lit q = round_double q"

fun fsub :: "pyfloat \<Rightarrow> pyfloat \<Rightarrow> pyfloat" where
  "fsub (Fin a) (Fin b) = round_double (a - b)"
| "fsub NaN y = NaN"
| "fsub x NaN = NaN"
| "fsub PInf PInf = NaN"
| "fsub NInf NInf = NaN"
| "fsub PInf y = PInf"
| "fsub NInf y = NInf"
| "fsub (Fin a) PInf = NInf"
| "fsub (Fin a) NInf = PInf"

fun fabs :: "pyfloat \<Rightarrow> pyfloat" where
  "fabs (Fin a) = Fin \<bar>a\<bar>"
| "fabs PInf = PInf"
| "fabs NInf = PInf"
| "fabs NaN = NaN"

fun flt :: "pyfloat \<Rightarrow> pyfloat \<Rightarrow> bool" where
  \<comment> \<open>\<open>x < y\<close>\<close>
  "flt (Fin a) (Fin b) = (a < b)"
| "flt (Fin a) PInf = True"
| "flt NInf (Fin b) = True"
| "flt NInf PInf = True"
| "flt x y = False"

fun truthy :: "pyfloat \<Rightarrow> bool" where
  \<comment> \<open>\<open>bool(x)\<close>: only zero is false\<close>
  "truthy (Fin a) = (a \<noteq> 0)"
| "truthy x = True"

definition digit_value :: "char \<Rightarrow> int" where
  "digit_value c = of_char c - 48"

definition int_of_digits :: "string \<Rightarrow> int" where
  "int_of_digits ds = foldl (\<lambda>n c. 10 * n + digit_value c) 0 ds"

fun decimal_value :: "string \<Rightarrow> string \<Rightarrow> error + pyfloat" where
  \<comment> \<open>the leading digits \<open>ip\<close> of the string and what follows them\<close>
  "decimal_value ip [] =
     (if ip = [] then Inl ValueError else Inr (round_double (of_int (int_of_digits ip))))"
| "decimal_value ip (c # fp) =
     (if ip \<noteq> [] \<and> c = CHR ''.'' \<and> fp \<noteq> [] \<and> list_all is_digit fp
      then Inr (round_double (of_int (int_of_digits (ip @ fp)) / 10 ^ length fp))
      else Inl ValueError)"

definition float_of_str :: "string \<Rightarrow> error + pyfloat" where
  \<comment> \<open>\<open>float(s)\<close> on the decimal notations \<open>ddd\<close> and \<open>ddd.ddd\<close>, correctly rounded. Every
      other string is answered with ValueError here; Python's \<open>float\<close> also reads signs,
      exponents, a bare leading or trailing point, surrounding blanks and the names of
      infinity and NaN, none of which the needle pattern can hand over.\<close>
  "float_of_str s = decimal_value (takeWhile is_digit s) (dropWhile is_digit s)"

definition reads_back :: "rat \<Rightarrow> int \<Rightarrow> int \<Rightarrow> bool" where
  \<comment> \<open>the decimal \<open>c * 10 ^ j\<close> rounds to the double \<open>x\<close>\<close>
  "reads_back x c j = (round_double (of_int c * pw 10 j) = Fin x)"

definition pick :: "rat \<Rightarrow> int \<Rightarrow> int \<Rightarrow> bool \<Rightarrow> bool \<Rightarrow> (int \<times> int) option" where
  \<comment> \<open>of the neighbours \<open>lo\<close> and \<open>lo + 1\<close> of \<open>t\<close>: the one that reads back; the nearer one
      when both do, and the even one when both are as near\<close>
  "pick t lo j lo_ok hi_ok =
     (if lo_ok \<and> hi_ok
      then Some (if t - of_int lo < of_int (lo + 1) - t then (lo, j)
                 else if of_int (lo + 1) - t < t - of_int lo then (lo + 1, j)
                 else if even lo then (lo, j) else (lo + 1, j))
      else if lo_ok then Some (lo, j)
      else if hi_ok then Some (lo + 1, j)
      else None)"

definition candidate :: "rat \<Rightarrow> int \<Rightarrow> (int \<times> int) option" where
  \<comment> \<open>a decimal with last digit at \<open>10 ^ j\<close> that reads back as \<open>x\<close>, if there is one\<close>
  "candidate x j =
     pick (x / pw 10 j) \<lfloor>x / pw 10 j\<rfloor> j
       (reads_back x \<lfloor>x / pw 10 j\<rfloor> j) (reads_back x (\<lfloor>x / pw 10 j\<rfloor> + 1) j)"

fun shortest :: "rat \<Rightarrow> int \<Rightarrow> int list \<Rightarrow> int \<times> int" where
  \<comment> \<open>\<open>shortest x e10 ns\<close>: the decimal \<open>c * 10 ^ j\<close> that rounds to the double \<open>x\<close> with the
      fewest significant digits among the lengths \<open>ns\<close>; 17 digits always read back, so
      they end the search\<close>
  "shortest x e10 [] = (round_half_even (x / pw 10 (e10 - 16)), e10 - 16)"
| "shortest x e10 (n # ns) =
     (case candidate x (e10 + 1 - n) of
        Some r \<Rightarrow> r
      | None \<Rightarrow> shortest x e10 ns)"

function strip_zeros :: "int \<Rightarrow> int \<Rightarrow> int \<times> int" where
  "strip_zeros c j = (if 0 < c \<and> c mod 10 = 0 then strip_zeros (c div 10) (j + 1) else (c, j))"
  by pat_completeness auto
termination
  by (relation "measure (\<lambda>(c, j). nat c)") (auto intro!: int_div_less_self)

definition digit_char :: "int \<Rightarrow> char" where
  "digit_char d = ''0123456789'' ! nat d"

function digits_of :: "int \<Rightarrow> string" where
  \<comment> \<open>the decimal digits of a non-negative integer\<close>
  "digits_of n =
     (if n < 10 then [digit_char n] else digits_of (n div 10) @ [digit_char (n mod 10)])"
  by pat_completeness auto
termination
  by (relation "measure nat") (auto intro!: int_div_less_self)

declare width.simps [simp del] strip_zeros.simps [simp del] digits_of.simps [simp del]

definition pad2 :: "string \<Rightarrow> string" where
  "pad2 ds = (if length ds < 2 then ''0'' @ ds else ds)"

definition format_exp :: "int \<Rightarrow> string" where
  \<comment> \<open>the exponent part: a sign and at least two digits\<close>
  "format_exp e = ''e'' @ (if e < 0 then ''-'' else ''+'') @ pad2 (digits_of \<bar>e\<bar>)"

definition format_short :: "string \<Rightarrow> int \<Rightarrow> string" where
  \<comment> \<open>digits \<open>ds\<close> read as \<open>0.ds * 10 ^ decpt\<close>: exponent notation when \<open>decpt \<le> -4\<close> or
      \<open>decpt > 16\<close>, positional notation with at least one digit after the point otherwise\<close>
  "format_short ds decpt =
     (if decpt \<le> - 4 \<or> 16 < decpt
      then hd ds # (if tl ds = [] then [] else CHR ''.'' # tl ds) @ format_exp (decpt - 1)
      else if decpt \<le> 0 then ''0.'' @ replicate (nat (- decpt)) CHR ''0'' @ ds
      else if int (length ds) \<le> decpt
        then ds @ replicate (nat decpt - length ds) CHR ''0'' @ ''.0''
      else take (nat decpt) ds @ ''.'' @ drop (nat decpt) ds)"

fun layout :: "int \<times> int \<Rightarrow> string" where
  \<comment> \<open>the decimal \<open>c * 10 ^ j\<close>, without trailing zeros in \<open>c\<close>, written out\<close>
  "layout (c, j) = format_short (digits_of c) (int (length (digits_of c)) + j)"

fun stripped :: "int \<times> int \<Rightarrow> int \<times> int" where
  "stripped (c, j) = strip_zeros c j"

definition repr_pos :: "rat \<Rightarrow> string" where
  "repr_pos x =
     layout (stripped (shortest x (floor_log 10 x)
       [1, 2, 3, 4, 5, 6, 7, 8, 9, 10, 11, 12, 13, 14, 15, 16]))"

definition repr :: "pyfloat \<Rightarrow> string" where
  "repr f = (case f of
       PInf \<Rightarrow> ''inf'' | NInf \<Rightarrow> ''-inf'' | NaN \<Rightarrow> ''nan''
     | Fin x \<Rightarrow> if x = 0 then ''0.0'' else if x < 0 then ''-'' @ repr_pos (- x) else repr_pos x)"

section \<open>Needle size normalization\<close>

definition US_NEEDLES :: "(string \<times> pyfloat) list" where
  \<comment> \<open>the dict literal in insertion order\<close>
  "US_NEEDLES =
     [(''0'', float_lit 2.0), (''1'', float_lit 2.25), (''2'', float_lit 2.75),
      (''3'', float_lit 3.25), (''4'', float_lit 3.5), (''5'', float_lit 3.75),
      (''6'', float_lit 4.0), (''7'', float_lit 4.5), (''8'', float_lit 5.0),
      (''9'', float_lit 5.5), (''10'', float_lit 6.0), (''10.5'', float_lit 6.5),
      (''11'', float_lit 8.0), (''13'', float_lit 9.0), (''15'', float_lit 10.0)]"

definition fraction :: "string \<Rightarrow> string \<times> string" where
  \<comment> \<open>the optional group \<open>(\.\d+)?\<close> tried at the start of \<open>r\<close>: its text, empty when the
      group takes no part, and the text after it\<close>
  "fraction r =
     (case r of
        [] \<Rightarrow> ([], r)
      | c # r' \<Rightarrow>
          if c = CHR ''.'' \<and> takeWhile is_digit r' \<noteq> []
          then (c # takeWhile is_digit r', dropWhile is_digit r')
          else ([], r))"

definition match_mm :: "string \<Rightarrow> (string \<times> string) option" where
  \<comment> \<open>the pattern \<open>(\d+(\.\d+)?)\s*mm\<close> tried at the start of \<open>s\<close>: group 1 and the text
      left after the match. Each repetition takes all it can; giving some back never helps,
      because the character it would give back cannot start what follows in the pattern.\<close>
  "match_mm s =
     (let ip = takeWhile is_digit s;
          (fp, r2) = fraction (dropWhile is_digit s);
          r3 = dropWhile is_space r2
      in if ip = [] then None
         else if startswith r3 ''mm'' then Some (ip @ fp, drop 2 r3) else None)"

function findall_mm :: "string \<Rightarrow> string list" where
  \<comment> \<open>\<open>re.findall\<close> with that pattern, keeping group 1 of each match: leftmost matches,
      the search resuming where the last match ended\<close>
  "findall_mm [] = []"
| "findall_mm (c # cs) =
     (case match_mm (c # cs) of
        Some (g, rest) \<Rightarrow> g # findall_mm rest
      | None \<Rightarrow> findall_mm cs)"
  by pat_completeness auto
termination
proof (relation "measure length")
  show "wf (measure length)" by simp
next
  fix c cs x2 g rest
  assume m: "match_mm (c # cs) = Some x2" and x: "(g, rest) = x2"
  obtain fp r2 where f: "fraction (dropWhile is_digit (c # cs)) = (fp, r2)"
    by (cases "fraction (dropWhile is_digit (c # cs))")
  have m': "match_mm (c # cs) =
      (if takeWhile is_digit (c # cs) = [] then None
       else if startswith (dropWhile is_space r2) ''mm''
         then Some (takeWhile is_digit (c # cs) @ fp, drop 2 (dropWhile is_space r2)) else None)"
    by (simp only: match_mm_def Let_def f prod.case)
  from m x have ne: "takeWhile is_digit (c # cs) \<noteq> []" and r: "rest = drop 2 (dropWhile is_space r2)"
    unfolding m' by (auto split: if_splits)
  from ne have "is_digit c" by (auto split: if_splits)
  then have l1: "length (dropWhile is_digit (c # cs)) \<le> length cs"
    by (simp add: length_dropWhile_le)
  have "length (snd (fraction r)) \<le> length r" for r
    by (cases r) (auto simp: fraction_def le_SucI length_dropWhile_le)
  from this [of "dropWhile is_digit (c # cs)"]
  have l2: "length r2 \<le> length (dropWhile is_digit (c # cs))"
    unfolding f by simp
  have "length rest \<le> length (dropWhile is_space r2)" unfolding r by simp
  also have "\<dots> \<le> length r2" by (rule length_dropWhile_le)
  finally have "length rest < length (c # cs)" using l1 l2 by simp
  then show "(rest, c # cs) \<in> measure length" by simp
next
  fix c cs
  show "(cs, c # cs) \<in> measure length" by simp
qed

definition is_numch :: "char \<Rightarrow> bool" where
  \<comment> \<open>the class \<open>[\d\.]\<close>\<close>
  "is_numch c = (is_digit c \<or> c = CHR ''.'')"

definition match_us :: "string \<Rightarrow> (string \<times> string) option" where
  \<comment> \<open>the pattern \<open>us\s*([\d\.]+)\<close> tried at the start of \<open>s\<close>\<close>
  "match_us s =
     (if startswith s ''us''
      then let r = dropWhile is_space (drop 2 s); g = takeWhile is_numch r
           in if g = [] then None else Some (g, dropWhile is_numch r)
      else None)"

function findall_us :: "string \<Rightarrow> string list" where
  "findall_us [] = []"
| "findall_us (c # cs) =
     (case match_us (c # cs) of
        Some (g, rest) \<Rightarrow> g # findall_us rest
      | None \<Rightarrow> findall_us cs)"
  by pat_completeness auto
termination
proof (relation "measure length")
  show "wf (measure length)" by simp
next
  fix c cs x2 g rest
  assume m: "match_us (c # cs) = Some x2" and x: "(g, rest) = x2"
  define r where "r = dropWhile is_space (drop 2 (c # cs))"
  from m x have s: "startswith (c # cs) ''us''" and e: "rest = dropWhile is_numch r"
    unfolding match_us_def Let_def r_def by (auto split: if_splits)
  from s have "2 \<le> length (c # cs)" by (cases cs) auto
  then have "length (drop 2 (c # cs)) < length (c # cs)" by simp
  moreover have "length r \<le> length (drop 2 (c # cs))" unfolding r_def by (rule length_dropWhile_le)
  moreover have "length rest \<le> length r" unfolding e by (rule length_dropWhile_le)
  ultimately have "length rest < length (c # cs)" by linarith
  then show "(rest, c # cs) \<in> measure length" by simp
next
  fix c cs
  show "(cs, c # cs) \<in> measure length" by simp
qed

fun floats :: "string list \<Rightarrow> error + pyfloat list" where
  \<comment> \<open>\<open>[float(m[0]) for m in mm_match]\<close>; the first exception ends the comprehension\<close>
  "floats [] = Inr []"
| "floats (g # gs) =
     (case float_of_str g of
        Inl e \<Rightarrow> Inl e
      | Inr x \<Rightarrow> (case floats gs of Inl e \<Rightarrow> Inl e | Inr xs \<Rightarrow> Inr (x # xs)))"

definition tolerance :: pyfloat where
  \<comment> \<open>the literal \<open>0.15\<close>\<close>
  "tolerance = float_lit 0.15"

definition near :: "pyfloat \<Rightarrow> pyfloat \<Rightarrow> bool" where
  \<comment> \<open>\<open>abs(v - mm) < 0.15\<close>\<close>
  "near v mm = flt (fabs (fsub v mm)) tolerance"

fun us_loop :: "(string \<times> pyfloat) list \<Rightarrow> pyfloat \<Rightarrow> string option \<Rightarrow> string option" where
  \<comment> \<open>\<open>for k, v in US_NEEDLES.items(): if abs(v - mm) < 0.15: us = k\<close>\<close>
  "us_loop [] mm us = us"
| "us_loop ((k, v) # items) mm us = us_loop items mm (if near v mm then Some k else us)"

definition mm_fragment :: "pyfloat \<Rightarrow> string" where
  \<comment> \<open>the body of \<open>for mm in mm_vals\<close>; \<open>if us\<close> holds for a key that is not the empty string\<close>
  "mm_fragment mm =
     (case us_loop US_NEEDLES mm None of
        Some us \<Rightarrow>
          if us \<noteq> [] then ''US '' @ us @ '' ('' @ repr mm @ '' mm)'' else repr mm @ '' mm''
      | None \<Rightarrow> repr mm @ '' mm'')"

definition us_fragment :: "string \<Rightarrow> string" where
  \<comment> \<open>the body of \<open>for us in us_vals\<close>, with \<open>US_NEEDLES.get(us)\<close>\<close>
  "us_fragment us =
     (case map_of US_NEEDLES us of
        Some mm \<Rightarrow>
          if truthy mm then ''US '' @ us @ '' ('' @ repr mm @ '' mm)'' else ''US '' @ us
      | None \<Rightarrow> ''US '' @ us)"

definition normalize_needle :: "string \<Rightarrow> error + string" where
  "normalize_needle val0 =
     (if val0 = [] then Inr []
      else let val = lower val0;
               mm_match = findall_mm val;
               us_match = findall_us val
           in case floats mm_match of
                Inl e \<Rightarrow> Inl e
              | Inr mm_vals \<Rightarrow>
                  let results = map mm_fragment mm_vals @ map us_fragment us_match
                  in Inr (if results \<noteq> [] then join '', '' results else val))"

section \<open>Shape classification\<close>

definition SHAPE_RULES :: "(string \<times> string list) list" where
  \<comment> \<open>the dict literal, in its insertion order, which is the order \<open>items()\<close> iterates in\<close>
  "SHAPE_RULES =
     [(''sphere'', [''ball'', ''round'', ''sphere'', ''egg'']),
      (''cube'', [''cube'', ''box'', ''square plush'', ''block'']),
      (''cone'', [''cone'', ''tree'', ''hat cone'']),
      (''pyramid'', [''pyramid'', ''tetra'']),
      (''cylinder'', [''tube'', ''sock'', ''sleeve'', ''leg warmer'']),
      (''softie'', [''toy'', ''amigurumi'', ''softie'', ''plush''])]"

definition any_in :: "string list \<Rightarrow> string \<Rightarrow> bool" where
  \<comment> \<open>\<open>any(k in text for k in keys)\<close>\<close>
  "any_in keys text = list_ex (\<lambda>k. str_in k text) keys"

fun detect_loop :: "(string \<times> string list) list \<Rightarrow> string \<Rightarrow> string" where
  \<comment> \<open>the \<open>for shape, keys in ...\<close> loop with its early return, and the final return\<close>
  "detect_loop [] text = ''unknown''"
| "detect_loop ((shape, keys) # rules) text =
     (if any_in keys text then shape else detect_loop rules text)"

definition detect_shape :: "string \<Rightarrow> string" where
  "detect_shape text = detect_loop SHAPE_RULES (lower text)"

section \<open>Technique extraction\<close>

definition TECHNIQUES :: "string list" where
  "TECHNIQUES =
     [''short rows'', ''increases'', ''decreases'',
      ''worked flat'', ''worked in the round'', ''top-down'', ''bottom-up'',
      ''modular'', ''seamed'', ''pick up stitches'', ''grafting'']"

definition extract_techniques :: "string \<Rightarrow> string list" where
  \<comment> \<open>\<open>sorted({t for t in TECHNIQUES if t in text})\<close>; strings compare by code points\<close>
  "extract_techniques text = sorted_list_of_set (set (filter (\<lambda>t. str_in t text) TECHNIQUES))"

definition get_or_empty :: "string option \<Rightarrow> string" where
  \<comment> \<open>\<open>result.get(key, "")\<close>\<close>
  "get_or_empty v = (case v of None \<Rightarrow> [] | Some s \<Rightarrow> s)"

definition classifier_text :: "string option \<Rightarrow> string option \<Rightarrow> string" where
  \<comment> \<open>the text that \<open>parse_html\<close> classifies: description, a blank, the notes text, lower-cased\<close>
  "classifier_text description full_text =
     lower (get_or_empty description @ '' '' @ get_or_empty full_text)"

section \<open>Link extraction\<close>

fun find_all_href :: "string option list \<Rightarrow> string list" where
  \<comment> \<open>\<open>soup.find_all("a", href=True)\<close> on the page's anchors, each given by its \<open>href\<close>
      attribute when it has one: the anchors that carry the attribute, in document order\<close>
  "find_all_href [] = []"
| "find_all_href (None # as) = find_all_href as"
| "find_all_href (Some href # as) = href # find_all_href as"

fun links_loop :: "string list \<Rightarrow> string list \<Rightarrow> string list" where
  "links_loop [] urls = urls"
| "links_loop (href # hrefs) urls =
     links_loop hrefs
       (if any_in [''.pdf'', ''download'', ''pattern''] (lower href)
        then (if str_in ''ravelry'' href \<or> startswith href ''http'' then urls @ [href] else urls)
        else urls)"

definition extract_download_links :: "string option list \<Rightarrow> string set" where
  \<comment> \<open>\<open>list(set(urls))\<close> lists the set in no fixed order; the model returns the set\<close>
  "extract_download_links anchors = set (links_loop (find_all_href anchors) [])"

definition keeps :: "string \<Rightarrow> bool" where
  \<comment> \<open>the two nested tests under which the loop appends an href\<close>
  "keeps h \<longleftrightarrow>
     (\<exists>k \<in> set [''.pdf'', ''download'', ''pattern'']. str_in k (lower h))
     \<and> (str_in ''ravelry'' h \<or> startswith h ''http'')"

section \<open>Text normalization\<close>

datatype 'a outcome = Returned 'a | Raised string

definition translate_to_english :: "(string \<Rightarrow> string outcome) \<Rightarrow> string \<Rightarrow> string outcome \<times> string list" where
  \<comment> \<open>\<open>translate\<close> is the external call \<open>GoogleTranslator(source='auto', target='en').translate\<close>:
      it returns a text or raises an \<open>Exception\<close>, given by its message. The result is what
      \<open>translate_to_english\<close> hands to its caller and the lines it prints.\<close>
  "translate_to_english translate text =
     (case translate text of
        Returned t \<Rightarrow> (Returned t, [])
      | Raised e \<Rightarrow> (Returned text, [''[warn] Translation skipped ('' @ e @ '')'']))"

section \<open>Field extraction\<close>

record field_value =
  val_text :: string
  span_texts :: "string list"

record field =
  label_text :: "string option"
  val :: "field_value option"

record result =
  craft :: "string option"
  category :: "string option"
  needle_size :: "string option"
  sizes_available :: "string option"
  languages :: "string list option"
  suggested_yarn :: "string set option"

definition empty_result :: result where
  \<comment> \<open>the keys that the field loop and the yarn step write, all absent at first\<close>
  "empty_result =
     \<lparr>craft = None, category = None, needle_size = None, sizes_available = None,
      languages = None, suggested_yarn = None\<rparr>"

definition field_step :: "result \<times> string list \<Rightarrow> field \<Rightarrow> error + result \<times> string list" where
  \<comment> \<open>one round of \<open>for f in fields\<close> on the dict and the list \<open>yarns\<close>; a field is given by
      the text of its label and by the text and the \<open>span\<close> texts of its value, each absent
      when \<open>find\<close> returns \<open>None\<close>\<close>
  "field_step st f =
     (case (label_text f, val f) of
        (Some lab, Some vd) \<Rightarrow>
          let key = lower (clean lab);
              v = clean (val_text vd);
              (r0, yarns) = st;
              r1 = (if str_in ''craft'' key then r0\<lparr>craft := Some v\<rparr> else r0);
              r2 = (if str_in ''category'' key then r1\<lparr>category := Some v\<rparr> else r1)
          in case (if str_in ''needle'' key
                   then (case normalize_needle v of
                           Inl e \<Rightarrow> Inl e
                         | Inr n \<Rightarrow> Inr (r2\<lparr>needle_size := Some n\<rparr>))
                   else Inr r2) of
               Inl e \<Rightarrow> Inl e
             | Inr r3 \<Rightarrow>
                 let yarns' = (if str_in ''yarn'' key then yarns @ [v] else yarns);
                     r4 = (if str_in ''sizes available'' key
                           then r3\<lparr>sizes_available := Some v\<rparr> else r3);
                     r5 = (if str_in ''languages'' key
                           then r4\<lparr>languages := Some (map clean (span_texts vd))\<rparr> else r4)
                 in Inr (r5, yarns')
      | _ \<Rightarrow> Inr st)"

fun fields_loop :: "field list \<Rightarrow> result \<times> string list \<Rightarrow> error + result \<times> string list" where
  "fields_loop [] st = Inr st"
| "fields_loop (f # fs) st =
     (case field_step st f of Inl e \<Rightarrow> Inl e | Inr st' \<Rightarrow> fields_loop fs st')"

definition parse_fields :: "field list \<Rightarrow> error + result" where
  \<comment> \<open>the field loop of \<open>parse_html\<close> and the step after it:
      \<open>if yarns: result["suggested_yarn"] = list(set(yarns))\<close>\<close>
  "parse_fields fs =
     (case fields_loop fs (empty_result, []) of
        Inl e \<Rightarrow> Inl e
      | Inr (r, yarns) \<Rightarrow>
          Inr (if yarns \<noteq> [] then r\<lparr>suggested_yarn := Some (set yarns)\<rparr> else r))"

section \<open>Notions used in the statements\<close>

definition is_alpha :: "char \<Rightarrow> bool" where
  "is_alpha c =
     (let n = (of_char c :: nat) in (65 \<le> n \<and> n \<le> 90) \<or> (97 \<le> n \<and> n \<le> 122))"

definition is_scheme_char :: "char \<Rightarrow> bool" where
  "is_scheme_char c = (is_alpha c \<or> is_digit c \<or> c \<in> set ''+-.'')"

definition spec_absolute_url :: "string \<Rightarrow> bool" where
  \<comment> \<open>the spec's "absolute URL", read as a URL that names its scheme: a letter, then letters,
      digits, plus, minus or point, then a colon. The extractor has no such test; this
      notion only serves to compare the spec's wording with the test the code makes.\<close>
  "spec_absolute_url h =
     (case h of
        [] \<Rightarrow> False
      | c # cs \<Rightarrow>
          is_alpha c \<and> (case dropWhile is_scheme_char cs of [] \<Rightarrow> False | d # r \<Rightarrow> d = CHR '':''))"

definition decimal :: "string \<Rightarrow> bool" where
  \<comment> \<open>the shape of group 1 of the metric pattern: digits, then possibly a point and digits\<close>
  "decimal g \<longleftrightarrow>
     (\<exists>ip fp. g = ip @ fp \<and> ip \<noteq> [] \<and> list_all is_digit ip
        \<and> (fp = [] \<or> (\<exists>fd. fp = CHR ''.'' # fd \<and> fd \<noteq> [] \<and> list_all is_digit fd)))"

definition matching :: "string \<Rightarrow> field \<Rightarrow> bool" where
  \<comment> \<open>the block has a label and a value, and the rule's word occurs in its lower-cased label\<close>
  "matching rule f =
     (case (label_text f, val f) of
        (Some lab, Some vd) \<Rightarrow> str_in rule (lower (clean lab))
      | _ \<Rightarrow> False)"

definition cleaned_value :: "field \<Rightarrow> string" where
  "cleaned_value f = (case val f of Some vd \<Rightarrow> clean (val_text vd) | None \<Rightarrow> [])"

definition cleaned_spans :: "field \<Rightarrow> string list" where
  "cleaned_spans f = (case val f of Some vd \<Rightarrow> map clean (span_texts vd) | None \<Rightarrow> [])"

definition last_match :: "string \<Rightarrow> field list \<Rightarrow> field option" where
  \<comment> \<open>the most recent block that matches the rule\<close>
  "last_match rule fs =
     (let ms = filter (matching rule) fs in if ms = [] then None else Some (last ms))"

section \<open>Example pages\<close>

definition lang_en :: field where
  "lang_en = \<lparr>label_text = Some ''Languages'', val = Some \<lparr>val_text = ''English'', span_texts = [''English'']\<rparr>\<rparr>"

definition lang_fr :: field where
  "lang_fr = \<lparr>label_text = Some ''Languages'', val = Some \<lparr>val_text = ''French'', span_texts = [''French'']\<rparr>\<rparr>"

definition yarn_a :: field where
  "yarn_a = \<lparr>label_text = Some ''Yarn'', val = Some \<lparr>val_text = ''Alpaca'', span_texts = []\<rparr>\<rparr>"

definition yarn_b :: field where
  "yarn_b = \<lparr>label_text = Some ''Suggested yarn'', val = Some \<lparr>val_text = ''Merino'', span_texts = []\<rparr>\<rparr>"

definition needle_circular :: field where
  "needle_circular =
     \<lparr>label_text = Some ''Needle size'', val = Some \<lparr>val_text = ''US 8 circular'', span_texts = []\<rparr>\<rparr>"

definition needle_straight :: field where
  "needle_straight =
     \<lparr>label_text = Some ''Needle size'', val = Some \<lparr>val_text = ''US 8 straight'', span_texts = []\<rparr>\<rparr>"

section \<open>Facts about the text primitives\<close>

lemma startswith_iff: "startswith s p \<longleftrightarrow> (\<exists>ss. s = p @ ss)"
  by (induction s p rule: startswith.induct) auto

lemma str_in_iff: "str_in k t \<longleftrightarrow> (\<exists>ps ss. t = ps @ k @ ss)"
proof (induction t)
  case Nil
  show ?case by simp
next
  case (Cons c cs)
  show ?case
  proof
    assume "str_in k (c # cs)"
    then consider "startswith (c # cs) k" | "str_in k cs" by auto
    then show "\<exists>ps ss. c # cs = ps @ k @ ss"
    proof cases
      case 1
      then obtain ss where "c # cs = k @ ss" by (auto simp: startswith_iff)
      then have "c # cs = [] @ k @ ss" by simp
      then show ?thesis by blast
    next
      case 2
      then obtain ps ss where "cs = ps @ k @ ss" using Cons.IH by auto
      then have "c # cs = (c # ps) @ k @ ss" by simp
      then show ?thesis by blast
    qed
  next
    assume "\<exists>ps ss. c # cs = ps @ k @ ss"
    then obtain ps ss where e: "c # cs = ps @ k @ ss" by auto
    show "str_in k (c # cs)"
    proof (cases ps)
      case Nil
      with e have "startswith (c # cs) k" by (auto simp: startswith_iff)
      then show ?thesis by simp
    next
      case (Cons p ps')
      with e have "cs = ps' @ k @ ss" by simp
      then have "str_in k cs" using Cons.IH by auto
      then show ?thesis by simp
    qed
  qed
qed

lemma any_in_iff: "any_in keys text \<longleftrightarrow> (\<exists>k \<in> set keys. str_in k text)"
  by (simp add: any_in_def list_ex_iff)

lemma lower_append: "lower (xs @ ys) = lower xs @ lower ys"
  by (simp add: lower_def)

lemma str_in_lower: "str_in k t \<Longrightarrow> str_in (lower k) (lower t)"
  unfolding str_in_iff by (metis lower_append)

section \<open>Shape classification: the first rule that matches decides\<close>

lemma detect_loop_first:
  "i < length rules \<Longrightarrow> any_in (snd (rules ! i)) t \<Longrightarrow>
   \<forall>j < i. \<not> any_in (snd (rules ! j)) t \<Longrightarrow> detect_loop rules t = fst (rules ! i)"
proof (induction rules arbitrary: i)
  case Nil
  then show ?case by simp
next
  case (Cons r rules)
  obtain shape keys where r: "r = (shape, keys)" by (cases r)
  show ?case
  proof (cases i)
    case 0
    with Cons.prems r show ?thesis by simp
  next
    case (Suc i')
    from Cons.prems(3) Suc have "\<not> any_in (snd ((r # rules) ! 0)) t" by blast
    then have no: "\<not> any_in keys t" using r by simp
    have "\<forall>j < i'. \<not> any_in (snd (rules ! j)) t"
    proof (intro allI impI)
      fix j assume "j < i'"
      then have "Suc j < i" using Suc by simp
      with Cons.prems(3) have "\<not> any_in (snd ((r # rules) ! Suc j)) t" by blast
      then show "\<not> any_in (snd (rules ! j)) t" by simp
    qed
    moreover from Cons.prems Suc have "i' < length rules" "any_in (snd (rules ! i')) t" by simp_all
    ultimately have "detect_loop rules t = fst (rules ! i')" using Cons.IH by blast
    with no r Suc show ?thesis by simp
  qed
qed

lemma detect_loop_none:
  "\<forall>i < length rules. \<not> any_in (snd (rules ! i)) t \<Longrightarrow> detect_loop rules t = ''unknown''"
proof (induction rules)
  case Nil
  show ?case by simp
next
  case (Cons r rules)
  obtain shape keys where r: "r = (shape, keys)" by (cases r)
  from Cons.prems have "\<not> any_in (snd ((r # rules) ! 0)) t" by blast
  then have no: "\<not> any_in keys t" using r by simp
  have "\<forall>i < length rules. \<not> any_in (snd (rules ! i)) t"
  proof (intro allI impI)
    fix i assume "i < length rules"
    then have "Suc i < length (r # rules)" by simp
    with Cons.prems have "\<not> any_in (snd ((r # rules) ! Suc i)) t" by blast
    then show "\<not> any_in (snd (rules ! i)) t" by simp
  qed
  then have "detect_loop rules t = ''unknown''" by (rule Cons.IH)
  with no r show ?case by simp
qed

text \<open>
  C5. Shape classification goes through the rules in the fixed order sphere, cube, cone,
  pyramid, cylinder, softie and returns the shape of the first rule one of whose keywords
  occurs in the lower-cased text; it returns "unknown" when no rule has such a keyword.
  A text whose lower-cased form contains both "ball" and "box" is a sphere.
\<close>

theorem detect_shape_first_match:
  "map fst SHAPE_RULES = [''sphere'', ''cube'', ''cone'', ''pyramid'', ''cylinder'', ''softie'']
   \<and> (\<forall>i < length SHAPE_RULES.
         (\<exists>k \<in> set (snd (SHAPE_RULES ! i)). str_in k (lower text))
         \<and> (\<forall>j < i. \<not> (\<exists>k \<in> set (snd (SHAPE_RULES ! j)). str_in k (lower text)))
         \<longrightarrow> detect_shape text = fst (SHAPE_RULES ! i))
   \<and> ((\<forall>i < length SHAPE_RULES. \<not> (\<exists>k \<in> set (snd (SHAPE_RULES ! i)). str_in k (lower text)))
         \<longrightarrow> detect_shape text = ''unknown'')
   \<and> (str_in ''ball'' (lower text) \<and> str_in ''box'' (lower text) \<longrightarrow> detect_shape text = ''sphere'')"
proof (intro conjI allI impI)
  show "map fst SHAPE_RULES = [''sphere'', ''cube'', ''cone'', ''pyramid'', ''cylinder'', ''softie'']"
    by (simp add: SHAPE_RULES_def)
next
  fix i
  assume "i < length SHAPE_RULES"
    and "(\<exists>k \<in> set (snd (SHAPE_RULES ! i)). str_in k (lower text))
         \<and> (\<forall>j < i. \<not> (\<exists>k \<in> set (snd (SHAPE_RULES ! j)). str_in k (lower text)))"
  then show "detect_shape text = fst (SHAPE_RULES ! i)"
    unfolding detect_shape_def by (intro detect_loop_first) (simp_all add: any_in_iff)
next
  assume "\<forall>i < length SHAPE_RULES. \<not> (\<exists>k \<in> set (snd (SHAPE_RULES ! i)). str_in k (lower text))"
  then show "detect_shape text = ''unknown''"
    unfolding detect_shape_def by (intro detect_loop_none) (simp add: any_in_iff)
next
  assume "str_in ''ball'' (lower text) \<and> str_in ''box'' (lower text)"
  then have "any_in [''ball'', ''round'', ''sphere'', ''egg''] (lower text)"
    by (simp add: any_in_def)
  then show "detect_shape text = ''sphere''"
    by (simp add: detect_shape_def SHAPE_RULES_def)
qed

theorem detect_shape_first_match_witness:
  "str_in ''ball'' (lower ''A Ball in a BOX'') \<and> str_in ''box'' (lower ''A Ball in a BOX'')
   \<and> detect_shape ''A Ball in a BOX'' = ''sphere''
   \<and> (1::nat) < length SHAPE_RULES
   \<and> (\<exists>k \<in> set (snd (SHAPE_RULES ! 1)). str_in k (lower ''Gift Box''))
   \<and> \<not> any_in (snd (SHAPE_RULES ! 0)) (lower ''Gift Box'')
   \<and> detect_shape ''Gift Box'' = ''cube''
   \<and> list_all (\<lambda>r. \<not> any_in (snd r) (lower ''Scarf'')) SHAPE_RULES
   \<and> detect_shape ''Scarf'' = ''unknown''"
proof -
  have a: "str_in ''ball'' (lower ''A Ball in a BOX'') \<and> str_in ''box'' (lower ''A Ball in a BOX'')"
    by code_simp
  have b1: "(1::nat) < length SHAPE_RULES" by (simp add: SHAPE_RULES_def)
  have b2: "\<exists>k \<in> set (snd (SHAPE_RULES ! 1)). str_in k (lower ''Gift Box'')"
    unfolding any_in_iff [symmetric] by code_simp
  have b0: "\<not> any_in (snd (SHAPE_RULES ! 0)) (lower ''Gift Box'')" by code_simp
  have b3: "\<forall>j < (1::nat). \<not> (\<exists>k \<in> set (snd (SHAPE_RULES ! j)). str_in k (lower ''Gift Box''))"
  proof (intro allI impI)
    fix j :: nat assume "j < 1"
    then have j: "j = 0" by simp
    show "\<not> (\<exists>k \<in> set (snd (SHAPE_RULES ! j)). str_in k (lower ''Gift Box''))"
      using b0 unfolding j any_in_iff .
  qed
  have c0: "list_all (\<lambda>r. \<not> any_in (snd r) (lower ''Scarf'')) SHAPE_RULES" by code_simp
  then have c: "\<forall>i < length SHAPE_RULES. \<not> (\<exists>k \<in> set (snd (SHAPE_RULES ! i)). str_in k (lower ''Scarf''))"
    unfolding any_in_iff by (simp add: list_all_length)
  have r1: "detect_shape ''A Ball in a BOX'' = ''sphere''"
    using detect_shape_first_match [of "''A Ball in a BOX''"] a by blast
  have r2: "detect_shape ''Gift Box'' = fst (SHAPE_RULES ! 1)"
    using detect_shape_first_match [of "''Gift Box''"] b1 b2 b3 by blast
  have r3: "detect_shape ''Scarf'' = ''unknown''"
    using detect_shape_first_match [of "''Scarf''"] c by blast
  have "fst (SHAPE_RULES ! 1) = ''cube''" by (simp add: SHAPE_RULES_def)
  with a b0 b1 b2 c0 r1 r2 r3 show ?thesis by simp
qed

section \<open>Technique extraction: the vocabulary phrases found, sorted\<close>

text \<open>
  C6. Technique extraction returns exactly the phrases of the eleven-entry vocabulary that
  occur in the text, as a list sorted in lexicographic order without repetition. The result
  does not depend on the order in which the set of found phrases is listed: sorting any
  listing of that set gives the same list, so the same text always yields the same result.
\<close>

theorem extract_techniques_sorted_set:
  "length TECHNIQUES = 11
   \<and> set (extract_techniques text) = {t \<in> set TECHNIQUES. str_in t text}
   \<and> sorted (extract_techniques text)
   \<and> distinct (extract_techniques text)
   \<and> (\<forall>ys. set ys = {t \<in> set TECHNIQUES. str_in t text} \<and> distinct ys
         \<longrightarrow> sort ys = extract_techniques text)"
proof (intro conjI allI impI)
  show "length TECHNIQUES = 11" by (simp add: TECHNIQUES_def)
  show "set (extract_techniques text) = {t \<in> set TECHNIQUES. str_in t text}"
    by (auto simp: extract_techniques_def)
  show "sorted (extract_techniques text)" by (simp add: extract_techniques_def)
  show "distinct (extract_techniques text)" by (simp add: extract_techniques_def)
next
  fix ys :: "string list"
  assume a: "set ys = {t \<in> set TECHNIQUES. str_in t text} \<and> distinct ys"
  then have "set ys = set (filter (\<lambda>t. str_in t text) TECHNIQUES)" by auto
  then have "extract_techniques text = sorted_list_of_set (set ys)"
    by (simp add: extract_techniques_def)
  also have "\<dots> = sort (remdups ys)" by (rule sorted_list_of_set_sort_remdups)
  also have "remdups ys = ys" using a by (simp add: distinct_remdups_id)
  finally show "sort ys = extract_techniques text" by simp
qed

theorem extract_techniques_sorted_set_witness:
  "set [''seamed'', ''grafting''] = {t \<in> set TECHNIQUES. str_in t ''seamed, then grafting''}
   \<and> distinct [''seamed'', ''grafting'']
   \<and> sort [''seamed'', ''grafting''] = extract_techniques ''seamed, then grafting''
   \<and> extract_techniques ''seamed, then grafting'' = [''grafting'', ''seamed'']"
proof -
  have e: "extract_techniques ''seamed, then grafting'' = [''grafting'', ''seamed'']"
    by code_simp
  have s: "set [''seamed'', ''grafting''] = {t \<in> set TECHNIQUES. str_in t ''seamed, then grafting''}"
    using extract_techniques_sorted_set [of "''seamed, then grafting''"] unfolding e by auto
  have d: "distinct [''seamed'', ''grafting'']" by simp
  from extract_techniques_sorted_set [of "''seamed, then grafting''"] s d
  have "sort [''seamed'', ''grafting''] = extract_techniques ''seamed, then grafting''" by blast
  with s d e show ?thesis by simp
qed

section \<open>Link extraction: which hrefs are kept\<close>

lemma set_find_all_href: "set (find_all_href anchors) = {h. Some h \<in> set anchors}"
  by (induction anchors rule: find_all_href.induct) auto

lemma set_links_loop: "set (links_loop hrefs urls) = set urls \<union> {h \<in> set hrefs. keeps h}"
  by (induction hrefs arbitrary: urls) (auto simp: keeps_def any_in_iff)

lemma links_iff: "h \<in> extract_download_links anchors \<longleftrightarrow> Some h \<in> set anchors \<and> keeps h"
  by (auto simp: extract_download_links_def set_links_loop set_find_all_href)

text \<open>
  C7 (as amended). An anchor's href is among the extracted links exactly when its
  lower-cased form contains one of ".pdf", "download", "pattern" and the href, as it is
  written, contains "ravelry" or starts with "http". The result is a set: two anchors with
  the same href give one entry.
\<close>

theorem extract_download_links_iff:
  "(h \<in> extract_download_links anchors \<longleftrightarrow>
      Some h \<in> set anchors
      \<and> (\<exists>k \<in> set [''.pdf'', ''download'', ''pattern'']. str_in k (lower h))
      \<and> (str_in ''ravelry'' h \<or> startswith h ''http''))
   \<and> card (extract_download_links [Some h, Some h]) \<le> 1
   \<and> (h \<in> extract_download_links [Some h, Some h]
        \<longrightarrow> extract_download_links [Some h, Some h] = {h}
            \<and> card (extract_download_links [Some h, Some h]) = 1)"
proof -
  have "extract_download_links [Some h, Some h] = (if keeps h then {h} else {})"
    by (auto simp: links_iff)
  then show ?thesis by (auto simp: links_iff keeps_def)
qed

theorem extract_download_links_iff_witness:
  "''http://x.org/a.PDF'' \<in> extract_download_links [Some ''http://x.org/a.PDF'', Some ''http://x.org/a.PDF'']
   \<and> extract_download_links [Some ''http://x.org/a.PDF'', Some ''http://x.org/a.PDF''] = {''http://x.org/a.PDF''}
   \<and> card (extract_download_links [Some ''http://x.org/a.PDF'', Some ''http://x.org/a.PDF'']) = 1"
proof -
  have k: "keeps ''http://x.org/a.PDF''" unfolding keeps_def any_in_iff [symmetric] by code_simp
  have "''http://x.org/a.PDF'' \<in> extract_download_links [Some ''http://x.org/a.PDF'', Some ''http://x.org/a.PDF'']"
    using extract_download_links_iff [of "''http://x.org/a.PDF''" "[Some ''http://x.org/a.PDF'', Some ''http://x.org/a.PDF'']"] k
    unfolding keeps_def by simp
  then show ?thesis
    using extract_download_links_iff [of "''http://x.org/a.PDF''" "[Some ''http://x.org/a.PDF'', Some ''http://x.org/a.PDF'']"]
    by blast
qed

text \<open>
  Starting with "http" is not being an absolute URL: an ftp address is absolute and is left
  out although it names a PDF, and a relative path that begins with the letters "http" is
  taken.
\<close>

theorem absolute_url_not_tested_counterexample:
  "spec_absolute_url ''ftp://x.org/y.pdf''
   \<and> any_in [''.pdf'', ''download'', ''pattern''] (lower ''ftp://x.org/y.pdf'')
   \<and> ''ftp://x.org/y.pdf'' \<notin> extract_download_links [Some ''ftp://x.org/y.pdf'']
   \<and> \<not> spec_absolute_url ''httpdocs/pattern-list.html''
   \<and> \<not> str_in ''ravelry'' ''httpdocs/pattern-list.html''
   \<and> ''httpdocs/pattern-list.html'' \<in> extract_download_links [Some ''httpdocs/pattern-list.html'']"
  by code_simp

text \<open>
  C9. The keyword test reads the lower-cased href, the "ravelry" test the href as it is.
  An href that does not start with "http" and has "ravelry" only with some upper-case
  letter (so that its lower-cased form contains "ravelry" and the href itself does not)
  is never among the links, whatever keywords it contains.
\<close>

theorem ravelry_test_case_sensitive:
  "\<not> startswith h ''http'' \<Longrightarrow> str_in ''ravelry'' (lower h) \<Longrightarrow> \<not> str_in ''ravelry'' h
   \<Longrightarrow> h \<notin> extract_download_links anchors"
  by (simp add: links_iff keeps_def)

theorem ravelry_test_case_sensitive_witness:
  "\<not> startswith ''/Ravelry/pattern.pdf'' ''http''
   \<and> str_in ''ravelry'' (lower ''/Ravelry/pattern.pdf'')
   \<and> \<not> str_in ''ravelry'' ''/Ravelry/pattern.pdf''
   \<and> any_in [''.pdf'', ''download'', ''pattern''] (lower ''/Ravelry/pattern.pdf'')
   \<and> ''/Ravelry/pattern.pdf'' \<notin> extract_download_links [Some ''/Ravelry/pattern.pdf'']"
proof -
  have a: "\<not> startswith ''/Ravelry/pattern.pdf'' ''http''" by code_simp
  have b: "str_in ''ravelry'' (lower ''/Ravelry/pattern.pdf'')" by code_simp
  have c: "\<not> str_in ''ravelry'' ''/Ravelry/pattern.pdf''" by code_simp
  have d: "any_in [''.pdf'', ''download'', ''pattern''] (lower ''/Ravelry/pattern.pdf'')" by code_simp
  from ravelry_test_case_sensitive [OF a b c, of "[Some ''/Ravelry/pattern.pdf'']"] a b c d
  show ?thesis by simp
qed

section \<open>Text normalization: failure falls back to the input\<close>

text \<open>
  C8. \<open>translate_to_english\<close> always returns to its caller. When the translation call
  raises, it prints one warning line and returns the text it was given; when the call
  returns a text, it returns that text and prints nothing.
\<close>

theorem translate_to_english_never_raises:
  "(\<exists>t. fst (translate_to_english translate text) = Returned t)
   \<and> (\<forall>e. translate text = Raised e \<longrightarrow>
          translate_to_english translate text
            = (Returned text, [''[warn] Translation skipped ('' @ e @ '')'']))
   \<and> (\<forall>t. translate text = Returned t \<longrightarrow>
          translate_to_english translate text = (Returned t, []))"
  by (cases "translate text") (simp_all add: translate_to_english_def)

theorem translate_to_english_never_raises_witness:
  "translate_to_english (\<lambda>s. Raised ''quota exceeded'') ''Strickmuster''
     = (Returned ''Strickmuster'', [''[warn] Translation skipped (quota exceeded)''])
   \<and> translate_to_english (\<lambda>s. Returned ''knitting pattern'') ''Strickmuster''
     = (Returned ''knitting pattern'', [])"
  using translate_to_english_never_raises [of "\<lambda>s. Raised ''quota exceeded''" "''Strickmuster''"]
    translate_to_english_never_raises [of "\<lambda>s. Returned ''knitting pattern''" "''Strickmuster''"]
  by simp

section \<open>The needle normalizer always returns\<close>

lemma not_digit_point: "\<not> is_digit CHR ''.''"
  by (simp add: is_digit_def)

lemma takeWhile_all: "list_all P xs \<Longrightarrow> (ys = [] \<or> \<not> P (hd ys)) \<Longrightarrow> takeWhile P (xs @ ys) = xs"
  by (induction xs) (auto simp: takeWhile_eq_Nil_iff)

lemma dropWhile_all: "list_all P xs \<Longrightarrow> (ys = [] \<or> \<not> P (hd ys)) \<Longrightarrow> dropWhile P (xs @ ys) = ys"
  by (induction xs) (auto simp: dropWhile_eq_self_iff)

lemma list_all_takeWhile: "list_all P (takeWhile P xs)"
  by (induction xs) auto

lemma fraction_shape:
  "fraction r = (fp, r2) \<Longrightarrow>
     fp = [] \<or> (\<exists>fd. fp = CHR ''.'' # fd \<and> fd \<noteq> [] \<and> list_all is_digit fd)"
  by (cases r) (auto simp: fraction_def list_all_takeWhile split: if_splits)

lemma match_mm_decimal: "match_mm s = Some (g, rest) \<Longrightarrow> decimal g"
proof -
  assume m: "match_mm s = Some (g, rest)"
  obtain fp r2 where f: "fraction (dropWhile is_digit s) = (fp, r2)"
    by (cases "fraction (dropWhile is_digit s)")
  from m have g: "g = takeWhile is_digit s @ fp" and ne: "takeWhile is_digit s \<noteq> []"
    unfolding match_mm_def Let_def f by (auto split: if_splits)
  show ?thesis
    unfolding decimal_def using g ne fraction_shape [OF f] list_all_takeWhile [of is_digit s]
    by blast
qed

lemma float_of_str_decimal: "decimal g \<Longrightarrow> \<exists>x. float_of_str g = Inr x"
proof -
  assume "decimal g"
  then obtain ip fp where g: "g = ip @ fp" and ne: "ip \<noteq> []" and d: "list_all is_digit ip"
    and fp: "fp = [] \<or> (\<exists>fd. fp = CHR ''.'' # fd \<and> fd \<noteq> [] \<and> list_all is_digit fd)"
    unfolding decimal_def by blast
  from fp have h: "fp = [] \<or> \<not> is_digit (hd fp)" by (auto simp: not_digit_point)
  have t: "takeWhile is_digit g = ip" unfolding g by (rule takeWhile_all [OF d h])
  have r: "dropWhile is_digit g = fp" unfolding g by (rule dropWhile_all [OF d h])
  have "float_of_str g = decimal_value ip fp" by (simp add: float_of_str_def t r)
  with fp ne show ?thesis by auto
qed

lemma findall_mm_decimal: "g \<in> set (findall_mm s) \<Longrightarrow> decimal g"
proof (induction s rule: findall_mm.induct)
  case 1
  then show ?case by simp
next
  case (2 c cs)
  show ?case
  proof (cases "match_mm (c # cs)")
    case None
    with 2 show ?thesis by simp
  next
    case (Some p)
    obtain g' rest where p: "p = (g', rest)" by (cases p)
    from 2 Some p show ?thesis by (auto dest: match_mm_decimal)
  qed
qed

lemma floats_total:
  "\<forall>g \<in> set gs. decimal g \<Longrightarrow> \<exists>xs. floats gs = Inr xs \<and> list_all2 (\<lambda>g x. float_of_str g = Inr x) gs xs"
proof (induction gs)
  case Nil
  show ?case by simp
next
  case (Cons g gs)
  then obtain xs where xs: "floats gs = Inr xs" "list_all2 (\<lambda>g x. float_of_str g = Inr x) gs xs"
    by auto
  from Cons.prems obtain x where "float_of_str g = Inr x"
    using float_of_str_decimal by auto
  with xs show ?case by simp
qed

lemma floats_findall_mm:
  "\<exists>xs. floats (findall_mm s) = Inr xs \<and> list_all2 (\<lambda>g x. float_of_str g = Inr x) (findall_mm s) xs"
  by (rule floats_total) (simp add: findall_mm_decimal)

lemma normalize_needle_total: "\<exists>out. normalize_needle v = Inr out"
proof -
  obtain xs where "floats (findall_mm (lower v)) = Inr xs" using floats_findall_mm by blast
  then show ?thesis by (simp add: normalize_needle_def Let_def)
qed

section \<open>Field extraction: the most recent matching block wins\<close>

lemma last_match_Nil: "last_match rule [] = None"
  by (simp add: last_match_def)

lemma last_match_snoc:
  "last_match rule (fs @ [f]) = (if matching rule f then Some f else last_match rule fs)"
  by (simp add: last_match_def)

lemma fields_loop_snoc:
  "fields_loop (fs @ [f]) st =
     (case fields_loop fs st of Inl e \<Rightarrow> Inl e | Inr st' \<Rightarrow> field_step st' f)"
  by (induction fs arbitrary: st) (auto split: sum.splits)

lemma field_step_effect:
  "\<exists>r' ys'. field_step (r, ys) f = Inr (r', ys')
     \<and> craft r' = (if matching ''craft'' f then Some (cleaned_value f) else craft r)
     \<and> category r' = (if matching ''category'' f then Some (cleaned_value f) else category r)
     \<and> map_option Inr (needle_size r') =
         (if matching ''needle'' f then Some (normalize_needle (cleaned_value f))
          else map_option Inr (needle_size r))
     \<and> sizes_available r' =
         (if matching ''sizes available'' f then Some (cleaned_value f) else sizes_available r)
     \<and> languages r' = (if matching ''languages'' f then Some (cleaned_spans f) else languages r)
     \<and> suggested_yarn r' = suggested_yarn r
     \<and> ys' = (if matching ''yarn'' f then ys @ [cleaned_value f] else ys)"
proof (cases "label_text f")
  case None
  then show ?thesis by (simp add: field_step_def matching_def)
next
  case lab: (Some lab)
  show ?thesis
  proof (cases "val f")
    case None
    with lab show ?thesis by (simp add: field_step_def matching_def)
  next
    case (Some vd)
    obtain n where n: "normalize_needle (clean (val_text vd)) = Inr n"
      using normalize_needle_total by blast
    show ?thesis
      using lab Some n
      by (simp add: field_step_def matching_def cleaned_value_def cleaned_spans_def Let_def)
  qed
qed

lemma fields_loop_invariant:
  "\<exists>r ys. fields_loop fs (empty_result, []) = Inr (r, ys)
     \<and> craft r = map_option cleaned_value (last_match ''craft'' fs)
     \<and> category r = map_option cleaned_value (last_match ''category'' fs)
     \<and> map_option Inr (needle_size r) =
         map_option (\<lambda>f. normalize_needle (cleaned_value f)) (last_match ''needle'' fs)
     \<and> sizes_available r = map_option cleaned_value (last_match ''sizes available'' fs)
     \<and> languages r = map_option cleaned_spans (last_match ''languages'' fs)
     \<and> suggested_yarn r = None
     \<and> ys = map cleaned_value (filter (matching ''yarn'') fs)"
proof (induction fs rule: rev_induct)
  case Nil
  show ?case by (simp add: last_match_Nil empty_result_def)
next
  case (snoc f fs)
  then obtain r ys where l: "fields_loop fs (empty_result, []) = Inr (r, ys)"
    and inv: "craft r = map_option cleaned_value (last_match ''craft'' fs)"
      "category r = map_option cleaned_value (last_match ''category'' fs)"
      "map_option Inr (needle_size r) =
         map_option (\<lambda>f. normalize_needle (cleaned_value f)) (last_match ''needle'' fs)"
      "sizes_available r = map_option cleaned_value (last_match ''sizes available'' fs)"
      "languages r = map_option cleaned_spans (last_match ''languages'' fs)"
      "suggested_yarn r = None"
      "ys = map cleaned_value (filter (matching ''yarn'') fs)"
    by blast
  from field_step_effect [of r ys f] obtain r' ys' where s: "field_step (r, ys) f = Inr (r', ys')"
    and eff: "craft r' = (if matching ''craft'' f then Some (cleaned_value f) else craft r)"
      "category r' = (if matching ''category'' f then Some (cleaned_value f) else category r)"
      "map_option Inr (needle_size r') =
         (if matching ''needle'' f then Some (normalize_needle (cleaned_value f))
          else map_option Inr (needle_size r))"
      "sizes_available r' =
         (if matching ''sizes available'' f then Some (cleaned_value f) else sizes_available r)"
      "languages r' = (if matching ''languages'' f then Some (cleaned_spans f) else languages r)"
      "suggested_yarn r' = suggested_yarn r"
      "ys' = (if matching ''yarn'' f then ys @ [cleaned_value f] else ys)"
    by blast
  have "fields_loop (fs @ [f]) (empty_result, []) = Inr (r', ys')"
    by (simp add: fields_loop_snoc l s)
  moreover have "craft r' = map_option cleaned_value (last_match ''craft'' (fs @ [f]))"
    by (simp add: eff inv last_match_snoc)
  moreover have "category r' = map_option cleaned_value (last_match ''category'' (fs @ [f]))"
    by (simp add: eff inv last_match_snoc)
  moreover have "map_option Inr (needle_size r') =
      map_option (\<lambda>f. normalize_needle (cleaned_value f)) (last_match ''needle'' (fs @ [f]))"
    by (simp add: eff inv last_match_snoc)
  moreover have "sizes_available r' =
      map_option cleaned_value (last_match ''sizes available'' (fs @ [f]))"
    by (simp add: eff inv last_match_snoc)
  moreover have "languages r' = map_option cleaned_spans (last_match ''languages'' (fs @ [f]))"
    by (simp add: eff inv last_match_snoc)
  moreover have "suggested_yarn r' = None" by (simp add: eff inv)
  moreover have "ys' = map cleaned_value (filter (matching ''yarn'') (fs @ [f]))"
    by (simp add: eff inv)
  ultimately show ?case by blast
qed

text \<open>
  C3 (as amended). Field extraction always returns a record. Of the blocks that have a label
  and a value, craft, category, needle size and sizes available hold the value of the most
  recent block whose label matches, the needle value normalized; languages likewise holds
  the span texts of the most recent matching block only. Yarn alone accumulates: the record
  holds the set of the values of all blocks whose label contains "yarn", and no such key when
  there is none.
\<close>

theorem parse_fields_last_match_wins:
  "\<exists>r. parse_fields fs = Inr r
     \<and> craft r = map_option cleaned_value (last_match ''craft'' fs)
     \<and> category r = map_option cleaned_value (last_match ''category'' fs)
     \<and> map_option Inr (needle_size r) =
         map_option (\<lambda>f. normalize_needle (cleaned_value f)) (last_match ''needle'' fs)
     \<and> sizes_available r = map_option cleaned_value (last_match ''sizes available'' fs)
     \<and> languages r = map_option cleaned_spans (last_match ''languages'' fs)
     \<and> suggested_yarn r =
         (if filter (matching ''yarn'') fs = [] then None
          else Some (set (map cleaned_value (filter (matching ''yarn'') fs))))"
proof -
  from fields_loop_invariant [of fs] obtain r ys
    where l: "fields_loop fs (empty_result, []) = Inr (r, ys)"
    and inv: "craft r = map_option cleaned_value (last_match ''craft'' fs)"
      "category r = map_option cleaned_value (last_match ''category'' fs)"
      "map_option Inr (needle_size r) =
         map_option (\<lambda>f. normalize_needle (cleaned_value f)) (last_match ''needle'' fs)"
      "sizes_available r = map_option cleaned_value (last_match ''sizes available'' fs)"
      "languages r = map_option cleaned_spans (last_match ''languages'' fs)"
      "suggested_yarn r = None"
      "ys = map cleaned_value (filter (matching ''yarn'') fs)"
    by blast
  show ?thesis
  proof (cases "ys = []")
    case True
    then have "parse_fields fs = Inr r" by (simp add: parse_fields_def l)
    with True inv show ?thesis by simp
  next
    case False
    then have "parse_fields fs = Inr (r\<lparr>suggested_yarn := Some (set ys)\<rparr>)"
      by (simp add: parse_fields_def l)
    with False inv show ?thesis by simp
  qed
qed

theorem languages_overwritten_counterexample:
  "parse_fields [lang_en, lang_fr] = Inr (empty_result\<lparr>languages := Some [''French'']\<rparr>)
   \<and> ''English'' \<notin> set [''French'']"
  by code_simp

theorem parse_fields_last_match_wins_witness:
  "parse_fields [yarn_a, lang_en, yarn_b, lang_fr]
     = Inr (empty_result\<lparr>languages := Some [''French''], suggested_yarn := Some {''Alpaca'', ''Merino''}\<rparr>)
   \<and> last_match ''languages'' [yarn_a, lang_en, yarn_b, lang_fr] = Some lang_fr
   \<and> filter (matching ''yarn'') [yarn_a, lang_en, yarn_b, lang_fr] = [yarn_a, yarn_b]"
proof -
  let ?fs = "[yarn_a, lang_en, yarn_b, lang_fr]"
  have m: "filter (matching ''yarn'') ?fs = [yarn_a, yarn_b]" by code_simp
  have l: "last_match ''languages'' ?fs = Some lang_fr" by code_simp
  have n: "last_match ''craft'' ?fs = None" "last_match ''category'' ?fs = None"
    "last_match ''needle'' ?fs = None" "last_match ''sizes available'' ?fs = None"
    by code_simp+
  have v: "cleaned_spans lang_fr = [''French'']" "cleaned_value yarn_a = ''Alpaca''"
    "cleaned_value yarn_b = ''Merino''"
    by code_simp+
  from parse_fields_last_match_wins [of ?fs] obtain r where r: "parse_fields ?fs = Inr r"
    and f: "craft r = map_option cleaned_value (last_match ''craft'' ?fs)"
      "category r = map_option cleaned_value (last_match ''category'' ?fs)"
      "map_option Inr (needle_size r) =
         map_option (\<lambda>f. normalize_needle (cleaned_value f)) (last_match ''needle'' ?fs)"
      "sizes_available r = map_option cleaned_value (last_match ''sizes available'' ?fs)"
      "languages r = map_option cleaned_spans (last_match ''languages'' ?fs)"
      "suggested_yarn r =
         (if filter (matching ''yarn'') ?fs = [] then None
          else Some (set (map cleaned_value (filter (matching ''yarn'') ?fs))))"
    by blast
  have "craft r = None" "category r = None" "needle_size r = None" "sizes_available r = None"
    "languages r = Some [''French'']" "suggested_yarn r = Some {''Alpaca'', ''Merino''}"
    using f unfolding m l n by (simp_all add: v)
  then have "r = empty_result\<lparr>languages := Some [''French''], suggested_yarn := Some {''Alpaca'', ''Merino''}\<rparr>"
    by (simp add: empty_result_def)
  with r m l show ?thesis by simp
qed

section \<open>Evaluating the float operations\<close>

lemma width_num [simp]:
  "width b (numeral n) = (if b < 2 then 0 else 1 + width b (numeral n div b))"
  "width b 0 = 0"
  "width b 1 = (if b < 2 then 0 else 1)"
  "width b (- numeral n) = 0"
  by (subst width.simps, simp)+

lemma strip_zeros_num [simp]:
  "strip_zeros (numeral n) j =
     (if numeral n mod 10 = (0::int) then strip_zeros (numeral n div 10) (j + 1) else (numeral n, j))"
  "strip_zeros 1 j = (1, j)"
  "strip_zeros 0 j = (0, j)"
  by (subst strip_zeros.simps, simp)+

lemma digits_of_num [simp]:
  "digits_of (numeral n) =
     (if numeral n < (10::int) then [digit_char (numeral n)]
      else digits_of (numeral n div 10) @ [digit_char (numeral n mod 10)])"
  "digits_of 1 = [digit_char 1]"
  "digits_of 0 = [digit_char 0]"
  by (subst digits_of.simps, simp)+

lemma floor_rat_num [simp]:
  "\<lfloor>numeral a / numeral b :: rat\<rfloor> = numeral a div numeral b"
  "\<lfloor>1 / numeral b :: rat\<rfloor> = 1 div numeral b"
    apply (metis floor_divide_of_int_eq of_int_numeral)
   apply (metis floor_divide_of_int_eq of_int_1 of_int_numeral)
  done

lemmas float_eval =
  round_double_def pack_def mantissa_def exponent_def round_half_even_def nearest_even_def
  floor_log_def above_def pw_def float_lit_def
  repr_def repr_pos_def candidate_def pick_def reads_back_def
  format_short_def format_exp_def pad2_def digit_char_def

lemmas parse_eval =
  float_of_str_def is_digit_def int_of_digits_def digit_value_def

lemma US_NEEDLES_values:
  "US_NEEDLES =
     [(''0'', Fin 2), (''1'', Fin (9 / 4)), (''2'', Fin (11 / 4)), (''3'', Fin (13 / 4)),
      (''4'', Fin (7 / 2)), (''5'', Fin (15 / 4)), (''6'', Fin 4), (''7'', Fin (9 / 2)),
      (''8'', Fin 5), (''9'', Fin (11 / 2)), (''10'', Fin 6), (''10.5'', Fin (13 / 2)),
      (''11'', Fin 8), (''13'', Fin 9), (''15'', Fin 10)]"
  by (simp add: US_NEEDLES_def float_eval)

lemma tolerance_value: "tolerance = Fin (5404319552844595 / 36028797018963968)"
  by (simp add: tolerance_def float_eval)

lemma us_fragment_8: "us_fragment ''8'' = ''US 8 (5.0 mm)''"
  by (simp add: us_fragment_def US_NEEDLES_values float_eval)

lemma us_fragment_5: "us_fragment ''5'' = ''US 5 (3.75 mm)''"
  by (simp add: us_fragment_def US_NEEDLES_values float_eval)

lemma normalize_needle_eval:
  "v \<noteq> [] \<Longrightarrow> findall_mm (lower v) = gs \<Longrightarrow> floats gs = Inr mms \<Longrightarrow>
   findall_us (lower v) = us \<Longrightarrow>
   normalize_needle v =
     Inr (if map mm_fragment mms @ map us_fragment us \<noteq> []
          then join '', '' (map mm_fragment mms @ map us_fragment us) else lower v)"
  by (simp add: normalize_needle_def Let_def)

section \<open>The US scan inside a longer word\<close>

text \<open>
  C10. The US scan matches the letters "us" wherever they stand, also at the end of a longer
  word: in "bus 5", which has no US notation, it reads the 5 as a US size, and the
  normalizer returns "US 5 (3.75 mm)" and not the input.
\<close>

theorem us_scan_matches_word_tail:
  "findall_mm (lower ''bus 5'') = []
   \<and> findall_us (lower ''bus 5'') = [''5'']
   \<and> normalize_needle ''bus 5'' = Inr ''US 5 (3.75 mm)''
   \<and> normalize_needle ''bus 5'' \<noteq> Inr ''bus 5''"
proof -
  have m: "findall_mm (lower ''bus 5'') = []" by code_simp
  have u: "findall_us (lower ''bus 5'') = [''5'']" by code_simp
  have f: "floats [] = Inr []" by simp
  have "normalize_needle ''bus 5'' = Inr ''US 5 (3.75 mm)''"
    using normalize_needle_eval [OF _ m f u] by (simp add: us_fragment_5)
  with m u show ?thesis by simp
qed

section \<open>What the normalized needle text keeps\<close>

lemma str_in_refl: "str_in x x"
  unfolding str_in_iff by (metis append_Nil append_Nil2)

lemma str_in_trans: "str_in a b \<Longrightarrow> str_in b c \<Longrightarrow> str_in a c"
proof -
  assume "str_in a b" "str_in b c"
  then obtain p s p' s' where "b = p @ a @ s" "c = p' @ b @ s'" unfolding str_in_iff by blast
  then have "c = (p' @ p) @ a @ (s @ s')" by simp
  then show ?thesis unfolding str_in_iff by blast
qed

lemma str_in_appendI: "str_in a b \<Longrightarrow> str_in a (p @ b @ s)"
proof -
  assume "str_in a b"
  then obtain p' s' where "b = p' @ a @ s'" unfolding str_in_iff by blast
  then have "p @ b @ s = (p @ p') @ a @ (s' @ s)" by simp
  then show ?thesis unfolding str_in_iff by blast
qed

lemma str_in_join: "x \<in> set xs \<Longrightarrow> str_in x (join sep xs)"
proof (induction sep xs rule: join.induct)
  case (1 sep)
  then show ?case by simp
next
  case (2 sep y)
  then show ?case by (simp add: str_in_refl)
next
  case (3 sep y z zs)
  show ?case
  proof (cases "x = y")
    case True
    have "str_in y ([] @ y @ (sep @ join sep (z # zs)))" by (rule str_in_appendI [OF str_in_refl])
    with True show ?thesis by simp
  next
    case False
    with 3 have "str_in x (join sep (z # zs))" by simp
    then have "str_in x ((y @ sep) @ join sep (z # zs) @ [])" by (rule str_in_appendI)
    then show ?thesis by simp
  qed
qed

lemma us_fragment_keeps: "str_in (''US '' @ u) (us_fragment u)"
proof -
  have "\<exists>s. us_fragment u = (''US '' @ u) @ s"
    by (simp add: us_fragment_def split: option.splits)
  then obtain s where "us_fragment u = [] @ (''US '' @ u) @ s" by auto
  then show ?thesis unfolding str_in_iff by blast
qed

lemma mm_fragment_keeps: "str_in (repr mm @ '' mm'') (mm_fragment mm)"
proof -
  have "\<exists>p s. mm_fragment mm = p @ (repr mm @ '' mm'') @ s"
  proof (cases "us_loop US_NEEDLES mm None")
    case None
    then have "mm_fragment mm = [] @ (repr mm @ '' mm'') @ []" by (simp add: mm_fragment_def)
    then show ?thesis by blast
  next
    case (Some us)
    show ?thesis
    proof (cases "us = []")
      case True
      with Some have "mm_fragment mm = [] @ (repr mm @ '' mm'') @ []" by (simp add: mm_fragment_def)
      then show ?thesis by blast
    next
      case False
      with Some have "mm_fragment mm = (''US '' @ us @ '' ('') @ (repr mm @ '' mm'') @ '')''"
        by (simp add: mm_fragment_def)
      then show ?thesis by blast
    qed
  qed
  then show ?thesis unfolding str_in_iff .
qed

lemma normalize_needle_results:
  "v \<noteq> [] \<Longrightarrow> floats (findall_mm (lower v)) = Inr mms \<Longrightarrow>
   normalize_needle v =
     Inr (if mms = [] \<and> findall_us (lower v) = [] then lower v
          else join '', '' (map mm_fragment mms @ map us_fragment (findall_us (lower v))))"
  by (simp add: normalize_needle_def Let_def)

lemma normalize_needle_empty: "normalize_needle [] = Inr []"
  by (simp add: normalize_needle_def)

lemma floats_length: "floats gs = Inr xs \<Longrightarrow> length xs = length gs"
  by (induction gs arbitrary: xs) (auto split: sum.splits)

text \<open>
  C4 (as amended). The needle normalizer never raises. When neither the metric nor the US
  pattern occurs in the lower-cased input, it returns the input lower-cased, which is the
  input itself when that has no upper-case letter. For the empty input it returns the empty
  string.
\<close>

theorem normalize_needle_passthrough_lower:
  "(\<exists>out. normalize_needle v = Inr out)
   \<and> (findall_mm (lower v) = [] \<and> findall_us (lower v) = []
        \<longrightarrow> normalize_needle v = Inr (lower v))
   \<and> (findall_mm (lower v) = [] \<and> findall_us (lower v) = [] \<and> lower v = v
        \<longrightarrow> normalize_needle v = Inr v)
   \<and> normalize_needle [] = Inr []"
proof -
  have p: "normalize_needle v = Inr (lower v)"
    if "findall_mm (lower v) = []" "findall_us (lower v) = []"
  proof (cases "v = []")
    case True
    then show ?thesis by (simp add: normalize_needle_empty lower_def)
  next
    case False
    have "floats (findall_mm (lower v)) = Inr []" using that by simp
    from normalize_needle_results [OF False this] that show ?thesis by simp
  qed
  from p normalize_needle_total [of v] normalize_needle_empty show ?thesis by auto
qed

theorem passthrough_changes_case_counterexample:
  "findall_mm (lower ''Bamboo'') = [] \<and> findall_us (lower ''Bamboo'') = []
   \<and> findall_mm ''Bamboo'' = [] \<and> findall_us ''Bamboo'' = []
   \<and> normalize_needle ''Bamboo'' = Inr ''bamboo''
   \<and> normalize_needle ''Bamboo'' \<noteq> Inr ''Bamboo''"
proof -
  have l: "lower ''Bamboo'' = ''bamboo''" by code_simp
  have m: "findall_mm (lower ''Bamboo'') = []" "findall_mm ''Bamboo'' = []" by code_simp+
  have u: "findall_us (lower ''Bamboo'') = []" "findall_us ''Bamboo'' = []" by code_simp+
  have f: "floats [] = Inr []" by simp
  have "normalize_needle ''Bamboo'' = Inr ''bamboo''"
    using normalize_needle_eval [OF _ m(1) f u(1)] by (simp add: l)
  with m u show ?thesis by simp
qed

theorem normalize_needle_passthrough_lower_witness:
  "findall_mm (lower ''Size M'') = [] \<and> findall_us (lower ''Size M'') = []
   \<and> normalize_needle ''Size M'' = Inr ''size m''
   \<and> findall_mm (lower ''wood'') = [] \<and> findall_us (lower ''wood'') = [] \<and> lower ''wood'' = ''wood''
   \<and> normalize_needle ''wood'' = Inr ''wood''"
proof -
  have a: "findall_mm (lower ''Size M'') = []" "findall_us (lower ''Size M'') = []" by code_simp+
  have b: "findall_mm (lower ''wood'') = []" "findall_us (lower ''wood'') = []"
    "lower ''wood'' = ''wood''" by code_simp+
  have l: "lower ''Size M'' = ''size m''" by code_simp
  from normalize_needle_passthrough_lower [of "''Size M''"] a
  have "normalize_needle ''Size M'' = Inr (lower ''Size M'')" by blast
  moreover from normalize_needle_passthrough_lower [of "''wood''"] b
  have "normalize_needle ''wood'' = Inr ''wood''" by blast
  ultimately show ?thesis using a b l by simp
qed

lemma floats_keeps:
  "floats gs = Inr xs \<Longrightarrow> g \<in> set gs \<Longrightarrow> \<exists>x \<in> set xs. float_of_str g = Inr x"
  by (induction gs arbitrary: xs) (auto split: sum.splits)

lemma normalize_needle_keeps:
  assumes "normalize_needle v = Inr out"
  shows "(\<forall>u \<in> set (findall_us (lower v)). str_in (''US '' @ u) out)
   \<and> (\<forall>g \<in> set (findall_mm (lower v)).
         \<exists>mm. float_of_str g = Inr mm \<and> str_in (repr mm @ '' mm'') out)
   \<and> (findall_mm (lower v) = [] \<and> findall_us (lower v) = [] \<longrightarrow> out = lower v)"
proof (cases "v = []")
  case True
  with assms show ?thesis by (simp add: normalize_needle_empty lower_def)
next
  case False
  obtain mms where f: "floats (findall_mm (lower v)) = Inr mms"
    using floats_findall_mm by blast
  let ?rs = "map mm_fragment mms @ map us_fragment (findall_us (lower v))"
  from normalize_needle_eval [OF False refl f refl] assms
  have out: "out = (if ?rs \<noteq> [] then join '', '' ?rs else lower v)" by simp
  have us: "str_in (''US '' @ u) out" if "u \<in> set (findall_us (lower v))" for u
  proof -
    from that have "us_fragment u \<in> set ?rs" by simp
    then have "?rs \<noteq> []" "str_in (us_fragment u) (join '', '' ?rs)"
      by (auto intro: str_in_join)
    with out have "str_in (us_fragment u) out" by simp
    with us_fragment_keeps show ?thesis by (rule str_in_trans)
  qed
  have mm: "\<exists>mm. float_of_str g = Inr mm \<and> str_in (repr mm @ '' mm'') out"
    if "g \<in> set (findall_mm (lower v))" for g
  proof -
    from floats_keeps [OF f that] obtain x where x: "x \<in> set mms" "float_of_str g = Inr x"
      by blast
    then have "mm_fragment x \<in> set ?rs" by simp
    then have "?rs \<noteq> []" "str_in (mm_fragment x) (join '', '' ?rs)"
      by (auto intro: str_in_join)
    with out have "str_in (mm_fragment x) out" by simp
    with mm_fragment_keeps have "str_in (repr x @ '' mm'') out" by (rule str_in_trans)
    with x show ?thesis by blast
  qed
  have none: "out = lower v" if "findall_mm (lower v) = []" "findall_us (lower v) = []"
  proof -
    from f that have "mms = []" by simp
    with out that show ?thesis by simp
  qed
  from us mm none show ?thesis by blast
qed

lemma parse_fields_needle:
  "parse_fields fs = Inr r \<Longrightarrow>
   map_option Inr (needle_size r) =
     map_option (\<lambda>f. normalize_needle (cleaned_value f)) (last_match ''needle'' fs)"
proof -
  assume p: "parse_fields fs = Inr r"
  from fields_loop_invariant [of fs] obtain r0 ys
    where l: "fields_loop fs (empty_result, []) = Inr (r0, ys)"
    and n: "map_option Inr (needle_size r0) =
         map_option (\<lambda>f. normalize_needle (cleaned_value f)) (last_match ''needle'' fs)"
    by blast
  from p l have "needle_size r = needle_size r0"
    by (auto simp: parse_fields_def split: if_splits)
  with n show ?thesis by simp
qed

lemma parse_one_needle:
  "label_text f = Some ''Needle size'' \<Longrightarrow> val f = Some vd \<Longrightarrow>
   normalize_needle (clean (val_text vd)) = Inr n \<Longrightarrow>
   parse_fields [f] = Inr (empty_result\<lparr>needle_size := Some n\<rparr>)"
proof -
  assume a: "label_text f = Some ''Needle size''" "val f = Some vd"
    "normalize_needle (clean (val_text vd)) = Inr n"
  have k: "lower (clean ''Needle size'') = ''needle size''" by code_simp
  have c: "\<not> str_in ''craft'' ''needle size''" "\<not> str_in ''category'' ''needle size''"
    "str_in ''needle'' ''needle size''" "\<not> str_in ''yarn'' ''needle size''"
    "\<not> str_in ''sizes available'' ''needle size''" "\<not> str_in ''languages'' ''needle size''"
    by code_simp+
  have "field_step (empty_result, []) f = Inr (empty_result\<lparr>needle_size := Some n\<rparr>, [])"
    by (simp add: field_step_def a k c Let_def)
  then show ?thesis by (simp add: parse_fields_def)
qed

lemma normalize_us_8_circular: "normalize_needle ''US 8 circular'' = Inr ''US 8 (5.0 mm)''"
proof -
  have m: "findall_mm (lower ''US 8 circular'') = []" by code_simp
  have u: "findall_us (lower ''US 8 circular'') = [''8'']" by code_simp
  have f: "floats [] = Inr []" by simp
  show ?thesis using normalize_needle_eval [OF _ m f u] by (simp add: us_fragment_8)
qed

lemma normalize_us_8_straight: "normalize_needle ''US 8 straight'' = Inr ''US 8 (5.0 mm)''"
proof -
  have m: "findall_mm (lower ''US 8 straight'') = []" by code_simp
  have u: "findall_us (lower ''US 8 straight'') = [''8'']" by code_simp
  have f: "floats [] = Inr []" by simp
  show ?thesis using normalize_needle_eval [OF _ m f u] by (simp add: us_fragment_8)
qed

lemma parse_needle_circular:
  "parse_fields [needle_circular] = Inr (empty_result\<lparr>needle_size := Some ''US 8 (5.0 mm)''\<rparr>)"
proof -
  have c: "clean ''US 8 circular'' = ''US 8 circular''" by code_simp
  show ?thesis
    by (rule parse_one_needle [where vd = "\<lparr>val_text = ''US 8 circular'', span_texts = []\<rparr>"])
      (simp_all add: needle_circular_def c normalize_us_8_circular)
qed

lemma parse_needle_straight:
  "parse_fields [needle_straight] = Inr (empty_result\<lparr>needle_size := Some ''US 8 (5.0 mm)''\<rparr>)"
proof -
  have c: "clean ''US 8 straight'' = ''US 8 straight''" by code_simp
  show ?thesis
    by (rule parse_one_needle [where vd = "\<lparr>val_text = ''US 8 straight'', span_texts = []\<rparr>"])
      (simp_all add: needle_straight_def c normalize_us_8_straight)
qed

lemma findall_lower_Nil: "findall_mm (lower []) = []" "findall_us (lower []) = []"
  by (simp_all add: lower_def)

lemma normalize_needle_exact:
  assumes "normalize_needle v = Inr out"
  shows "\<exists>mms. floats (findall_mm (lower v)) = Inr mms
     \<and> (findall_mm (lower v) \<noteq> [] \<or> findall_us (lower v) \<noteq> []
          \<longrightarrow> out = join '', '' (map mm_fragment mms @ map us_fragment (findall_us (lower v))))
     \<and> (\<forall>v'. findall_mm (lower v') = findall_mm (lower v)
             \<and> findall_us (lower v') = findall_us (lower v)
             \<and> (findall_mm (lower v') \<noteq> [] \<or> findall_us (lower v') \<noteq> [])
             \<longrightarrow> normalize_needle v' = Inr out)"
proof -
  obtain mms where f: "floats (findall_mm (lower v)) = Inr mms"
    using floats_findall_mm by blast
  let ?rs = "map mm_fragment mms @ map us_fragment (findall_us (lower v))"
  have len: "length mms = length (findall_mm (lower v))" using f by (rule floats_length)
  have rs: "?rs \<noteq> []" if "findall_mm (lower v) \<noteq> [] \<or> findall_us (lower v) \<noteq> []"
    using that len by auto
  have ex: "out = join '', '' ?rs" if m: "findall_mm (lower v) \<noteq> [] \<or> findall_us (lower v) \<noteq> []"
  proof -
    from m have "v \<noteq> []" using findall_lower_Nil by auto
    from normalize_needle_eval [OF this refl f refl] assms rs [OF m] show ?thesis by simp
  qed
  have same: "normalize_needle v' = Inr out"
    if e: "findall_mm (lower v') = findall_mm (lower v)" "findall_us (lower v') = findall_us (lower v)"
      and m': "findall_mm (lower v') \<noteq> [] \<or> findall_us (lower v') \<noteq> []" for v'
  proof -
    from m' e have m: "findall_mm (lower v) \<noteq> [] \<or> findall_us (lower v) \<noteq> []" by simp
    from m' have "v' \<noteq> []" using findall_lower_Nil by auto
    from normalize_needle_eval [OF this e(1) f e(2)] rs [OF m] ex [OF m] show ?thesis by simp
  qed
  from f ex same show ?thesis by blast
qed

text \<open>
  C1 (as amended). The record's needle_size field holds the normalized text of the most
  recent needle block and nothing else of the raw value. When a size is recognised, that
  text is exactly the fragments of the recognised sizes joined by ", ", the metric ones
  first: it is the same for every raw value with the same recognised sizes, so the text
  around them is not kept. It keeps every recognised size, each US size \<open>u\<close> as "US u" and
  each metric size as its float value followed by " mm". Only when no size is recognised
  does it keep the whole raw value, lower-cased.
\<close>

theorem needle_size_keeps_recognised_sizes:
  "parse_fields fs = Inr r \<Longrightarrow> last_match ''needle'' fs = Some f \<Longrightarrow>
   \<exists>out mms. needle_size r = Some out
     \<and> normalize_needle (cleaned_value f) = Inr out
     \<and> floats (findall_mm (lower (cleaned_value f))) = Inr mms
     \<and> (findall_mm (lower (cleaned_value f)) \<noteq> [] \<or> findall_us (lower (cleaned_value f)) \<noteq> []
          \<longrightarrow> out = join '', '' (map mm_fragment mms
                          @ map us_fragment (findall_us (lower (cleaned_value f)))))
     \<and> (\<forall>v'. findall_mm (lower v') = findall_mm (lower (cleaned_value f))
             \<and> findall_us (lower v') = findall_us (lower (cleaned_value f))
             \<and> (findall_mm (lower v') \<noteq> [] \<or> findall_us (lower v') \<noteq> [])
             \<longrightarrow> normalize_needle v' = Inr out)
     \<and> (\<forall>u \<in> set (findall_us (lower (cleaned_value f))). str_in (''US '' @ u) out)
     \<and> (\<forall>g \<in> set (findall_mm (lower (cleaned_value f))).
           \<exists>mm. float_of_str g = Inr mm \<and> str_in (repr mm @ '' mm'') out)
     \<and> (findall_mm (lower (cleaned_value f)) = [] \<and> findall_us (lower (cleaned_value f)) = []
          \<longrightarrow> out = lower (cleaned_value f))"
proof -
  assume p: "parse_fields fs = Inr r" and l: "last_match ''needle'' fs = Some f"
  from parse_fields_needle [OF p] l
  have "map_option Inr (needle_size r) = Some (normalize_needle (cleaned_value f))" by simp
  then obtain out where o: "needle_size r = Some out" "normalize_needle (cleaned_value f) = Inr out"
    by (cases "needle_size r") auto
  from normalize_needle_exact [OF o(2)] obtain mms
    where "floats (findall_mm (lower (cleaned_value f))) = Inr mms"
      and "findall_mm (lower (cleaned_value f)) \<noteq> [] \<or> findall_us (lower (cleaned_value f)) \<noteq> []
          \<longrightarrow> out = join '', '' (map mm_fragment mms
                          @ map us_fragment (findall_us (lower (cleaned_value f))))"
      and "\<forall>v'. findall_mm (lower v') = findall_mm (lower (cleaned_value f))
             \<and> findall_us (lower v') = findall_us (lower (cleaned_value f))
             \<and> (findall_mm (lower v') \<noteq> [] \<or> findall_us (lower v') \<noteq> [])
             \<longrightarrow> normalize_needle v' = Inr out"
    by blast
  with normalize_needle_keeps [OF o(2)] o show ?thesis by blast
qed

theorem needle_text_dropped_counterexample:
  "cleaned_value needle_circular = ''US 8 circular''
   \<and> cleaned_value needle_straight = ''US 8 straight''
   \<and> parse_fields [needle_circular] = Inr (empty_result\<lparr>needle_size := Some ''US 8 (5.0 mm)''\<rparr>)
   \<and> parse_fields [needle_straight] = Inr (empty_result\<lparr>needle_size := Some ''US 8 (5.0 mm)''\<rparr>)
   \<and> str_in ''circular'' ''US 8 circular''
   \<and> \<not> str_in ''circular'' ''US 8 (5.0 mm)''
   \<and> \<not> str_in ''circular'' (lower ''US 8 (5.0 mm)'')"
proof -
  have "cleaned_value needle_circular = ''US 8 circular''"
    "cleaned_value needle_straight = ''US 8 straight''"
    "str_in ''circular'' ''US 8 circular''"
    "\<not> str_in ''circular'' ''US 8 (5.0 mm)''"
    "\<not> str_in ''circular'' (lower ''US 8 (5.0 mm)'')"
    by code_simp+
  with parse_needle_circular parse_needle_straight show ?thesis by simp
qed

theorem needle_size_keeps_recognised_sizes_witness:
  "parse_fields [needle_circular] = Inr (empty_result\<lparr>needle_size := Some ''US 8 (5.0 mm)''\<rparr>)
   \<and> last_match ''needle'' [needle_circular] = Some needle_circular
   \<and> findall_mm (lower (cleaned_value needle_circular)) = []
   \<and> findall_us (lower (cleaned_value needle_circular)) = [''8'']
   \<and> floats (findall_mm (lower (cleaned_value needle_circular))) = Inr []
   \<and> ''US 8 (5.0 mm)'' = join '', '' (map mm_fragment [] @ map us_fragment [''8''])
   \<and> findall_mm (lower ''US 8 straight'') = []
   \<and> findall_us (lower ''US 8 straight'') = [''8'']
   \<and> normalize_needle ''US 8 straight'' = Inr ''US 8 (5.0 mm)''
   \<and> str_in ''US 8'' ''US 8 (5.0 mm)''"
proof -
  have l: "last_match ''needle'' [needle_circular] = Some needle_circular" by code_simp
  have m: "findall_mm (lower (cleaned_value needle_circular)) = []" by code_simp
  have u: "findall_us (lower (cleaned_value needle_circular)) = [''8'']" by code_simp
  have m': "findall_mm (lower ''US 8 straight'') = []" by code_simp
  have u': "findall_us (lower ''US 8 straight'') = [''8'']" by code_simp
  from needle_size_keeps_recognised_sizes [OF parse_needle_circular l]
  obtain out mms
    where o: "needle_size (empty_result\<lparr>needle_size := Some ''US 8 (5.0 mm)''\<rparr>) = Some out"
      and f: "floats (findall_mm (lower (cleaned_value needle_circular))) = Inr mms"
      and e: "findall_mm (lower (cleaned_value needle_circular)) \<noteq> []
            \<or> findall_us (lower (cleaned_value needle_circular)) \<noteq> []
          \<longrightarrow> out = join '', '' (map mm_fragment mms
                          @ map us_fragment (findall_us (lower (cleaned_value needle_circular))))"
      and s: "\<forall>v'. findall_mm (lower v') = findall_mm (lower (cleaned_value needle_circular))
             \<and> findall_us (lower v') = findall_us (lower (cleaned_value needle_circular))
             \<and> (findall_mm (lower v') \<noteq> [] \<or> findall_us (lower v') \<noteq> [])
             \<longrightarrow> normalize_needle v' = Inr out"
      and k: "\<forall>u \<in> set (findall_us (lower (cleaned_value needle_circular))). str_in (''US '' @ u) out"
    by blast
  from o have out: "out = ''US 8 (5.0 mm)''" by simp
  from f have mms: "mms = []" unfolding m by simp
  from f have r1: "floats (findall_mm (lower (cleaned_value needle_circular))) = Inr []"
    unfolding mms .
  from e have r2: "''US 8 (5.0 mm)'' = join '', '' (map mm_fragment [] @ map us_fragment [''8''])"
    unfolding m u mms out by simp
  from s have "findall_mm (lower ''US 8 straight'') = [] \<and> findall_us (lower ''US 8 straight'') = [''8'']
             \<and> (findall_mm (lower ''US 8 straight'') \<noteq> [] \<or> findall_us (lower ''US 8 straight'') \<noteq> [])
             \<longrightarrow> normalize_needle ''US 8 straight'' = Inr ''US 8 (5.0 mm)''"
    unfolding m u out by blast
  then have r3: "normalize_needle ''US 8 straight'' = Inr ''US 8 (5.0 mm)''"
    using m' u' by simp
  from k have r4: "str_in (''US '' @ ''8'') ''US 8 (5.0 mm)''" unfolding u out by simp
  from parse_needle_circular l m u r1 r2 m' u' r3 r4 show ?thesis by simp
qed

section \<open>Which table entry the metric lookup selects\<close>

lemma us_loop_none:
  "\<forall>i < length items. \<not> near (snd (items ! i)) mm \<Longrightarrow> us_loop items mm acc = acc"
proof (induction items arbitrary: acc)
  case Nil
  show ?case by simp
next
  case (Cons kv items)
  obtain k v where kv: "kv = (k, v)" by (cases kv)
  from Cons.prems have "\<not> near (snd ((kv # items) ! 0)) mm" by blast
  then have no: "\<not> near v mm" using kv by simp
  have "\<forall>i < length items. \<not> near (snd (items ! i)) mm"
  proof (intro allI impI)
    fix i assume "i < length items"
    then have "Suc i < length (kv # items)" by simp
    with Cons.prems have "\<not> near (snd ((kv # items) ! Suc i)) mm" by blast
    then show "\<not> near (snd (items ! i)) mm" by simp
  qed
  then have "us_loop items mm acc = acc" by (rule Cons.IH)
  with no kv show ?case by simp
qed

lemma us_loop_last:
  "i < length items \<Longrightarrow> near (snd (items ! i)) mm \<Longrightarrow>
   \<forall>j. i < j \<and> j < length items \<longrightarrow> \<not> near (snd (items ! j)) mm \<Longrightarrow>
   us_loop items mm acc = Some (fst (items ! i))"
proof (induction items arbitrary: i acc)
  case Nil
  then show ?case by simp
next
  case (Cons kv items)
  obtain k v where kv: "kv = (k, v)" by (cases kv)
  show ?case
  proof (cases i)
    case 0
    with Cons.prems kv have n: "near v mm" by simp
    have "\<forall>j < length items. \<not> near (snd (items ! j)) mm"
    proof (intro allI impI)
      fix j assume "j < length items"
      then have "i < Suc j \<and> Suc j < length (kv # items)" using 0 by simp
      with Cons.prems(3) have "\<not> near (snd ((kv # items) ! Suc j)) mm" by blast
      then show "\<not> near (snd (items ! j)) mm" by simp
    qed
    then have "us_loop items mm (Some k) = Some k" by (rule us_loop_none)
    with n kv 0 show ?thesis by simp
  next
    case (Suc i')
    have "\<forall>j. i' < j \<and> j < length items \<longrightarrow> \<not> near (snd (items ! j)) mm"
    proof (intro allI impI)
      fix j assume "i' < j \<and> j < length items"
      then have "i < Suc j \<and> Suc j < length (kv # items)" using Suc by simp
      with Cons.prems(3) have "\<not> near (snd ((kv # items) ! Suc j)) mm" by blast
      then show "\<not> near (snd (items ! j)) mm" by simp
    qed
    moreover from Cons.prems Suc have "i' < length items" "near (snd (items ! i')) mm" by simp_all
    ultimately have "us_loop items mm (if near v mm then Some k else acc) = Some (fst (items ! i'))"
      using Cons.IH by blast
    with kv Suc show ?thesis by simp
  qed
qed

lemma US_NEEDLES_keys: "i < length US_NEEDLES \<Longrightarrow> fst (US_NEEDLES ! i) \<noteq> []"
proof -
  have "list_all (\<lambda>kv. fst kv \<noteq> []) US_NEEDLES" by (simp add: US_NEEDLES_def)
  then show "i < length US_NEEDLES \<Longrightarrow> fst (US_NEEDLES ! i) \<noteq> []"
    by (simp add: list_all_length)
qed

lemma float_4_5: "float_of_str ''4.5'' = Inr (Fin (9 / 2))"
  by (simp add: parse_eval float_eval)

lemma float_7: "float_of_str ''7'' = Inr (Fin 7)"
  by (simp add: parse_eval float_eval)

lemma float_3_62: "float_of_str ''3.62'' = Inr (Fin (4075757662770299 / 1125899906842624))"
  by (simp add: parse_eval float_eval)

lemma repr_4_5: "repr (Fin (9 / 2)) = ''4.5''"
  by (simp add: float_eval)

lemma repr_7: "repr (Fin 7) = ''7.0''"
  by (simp add: float_eval)

lemma repr_3_62: "repr (Fin (4075757662770299 / 1125899906842624)) = ''3.62''"
  by (simp add: float_eval)

lemma near_4_5:
  "map (\<lambda>kv. near (snd kv) (Fin (9 / 2))) US_NEEDLES =
     [False, False, False, False, False, False, False, True,
      False, False, False, False, False, False, False]"
  by (simp add: US_NEEDLES_values near_def tolerance_value float_eval)

lemma near_7:
  "map (\<lambda>kv. near (snd kv) (Fin 7)) US_NEEDLES =
     [False, False, False, False, False, False, False, False,
      False, False, False, False, False, False, False]"
  by (simp add: US_NEEDLES_values near_def tolerance_value float_eval)

lemma near_3_62:
  "map (\<lambda>kv. near (snd kv) (Fin (4075757662770299 / 1125899906842624))) US_NEEDLES =
     [False, False, False, False, True, True, False, False,
      False, False, False, False, False, False, False]"
  by (simp add: US_NEEDLES_values near_def tolerance_value float_eval)

lemma mm_fragment_3_62:
  "mm_fragment (Fin (4075757662770299 / 1125899906842624)) = ''US 5 (3.62 mm)''"
  by (simp add: mm_fragment_def US_NEEDLES_values near_def tolerance_value float_eval)

text \<open>
  C2 (as amended). For every metric value the normalizer selects the last entry of the
  conversion table, in table order, whose absolute difference from the value is strictly
  less than 0.15; it emits "US {us} ({mm} mm)" with that entry's US size when there is one
  and "{mm} mm" when no entry is that near. The fragments of the metric values come first
  in the output, joined by ", ". In particular "4.5 mm" normalizes to "US 7 (4.5 mm)" and
  "7 mm" to "7.0 mm".
\<close>

theorem mm_lookup_last_within_tolerance:
  "(\<forall>i < length US_NEEDLES.
      near (snd (US_NEEDLES ! i)) mm
      \<and> (\<forall>j. i < j \<and> j < length US_NEEDLES \<longrightarrow> \<not> near (snd (US_NEEDLES ! j)) mm)
      \<longrightarrow> mm_fragment mm = ''US '' @ fst (US_NEEDLES ! i) @ '' ('' @ repr mm @ '' mm)'')
   \<and> ((\<forall>i < length US_NEEDLES. \<not> near (snd (US_NEEDLES ! i)) mm)
        \<longrightarrow> mm_fragment mm = repr mm @ '' mm'')
   \<and> near v mm = flt (fabs (fsub v mm)) (float_lit 0.15)
   \<and> (s \<noteq> [] \<and> floats (findall_mm (lower s)) = Inr (mm # mms)
        \<longrightarrow> normalize_needle s =
            Inr (join '', '' (map mm_fragment (mm # mms) @ map us_fragment (findall_us (lower s)))))
   \<and> normalize_needle ''4.5 mm'' = Inr ''US 7 (4.5 mm)''
   \<and> normalize_needle ''7 mm'' = Inr ''7.0 mm''"
proof (intro conjI allI impI)
  fix i
  assume i: "i < length US_NEEDLES"
    and n: "near (snd (US_NEEDLES ! i)) mm
      \<and> (\<forall>j. i < j \<and> j < length US_NEEDLES \<longrightarrow> \<not> near (snd (US_NEEDLES ! j)) mm)"
  then have "us_loop US_NEEDLES mm None = Some (fst (US_NEEDLES ! i))"
    by (intro us_loop_last) simp_all
  with US_NEEDLES_keys [OF i]
  show "mm_fragment mm = ''US '' @ fst (US_NEEDLES ! i) @ '' ('' @ repr mm @ '' mm)''"
    by (simp add: mm_fragment_def)
next
  assume "\<forall>i < length US_NEEDLES. \<not> near (snd (US_NEEDLES ! i)) mm"
  then have "us_loop US_NEEDLES mm None = None" by (rule us_loop_none)
  then show "mm_fragment mm = repr mm @ '' mm''" by (simp add: mm_fragment_def)
next
  show "near v mm = flt (fabs (fsub v mm)) (float_lit 0.15)"
    by (simp add: near_def tolerance_def)
next
  assume a: "s \<noteq> [] \<and> floats (findall_mm (lower s)) = Inr (mm # mms)"
  then have "s \<noteq> []" "floats (findall_mm (lower s)) = Inr (mm # mms)" by simp_all
  from normalize_needle_eval [OF this(1) refl this(2) refl]
  show "normalize_needle s =
      Inr (join '', '' (map mm_fragment (mm # mms) @ map us_fragment (findall_us (lower s))))"
    by simp
next
  have m: "findall_mm (lower ''4.5 mm'') = [''4.5'']" by code_simp
  have u: "findall_us (lower ''4.5 mm'') = []" by code_simp
  have f: "floats [''4.5''] = Inr [Fin (9 / 2)]" by (simp add: float_4_5)
  have g: "mm_fragment (Fin (9 / 2)) = ''US 7 (4.5 mm)''"
    by (simp add: mm_fragment_def US_NEEDLES_values near_def tolerance_value float_eval)
  show "normalize_needle ''4.5 mm'' = Inr ''US 7 (4.5 mm)''"
    using normalize_needle_eval [OF _ m f u] by (simp add: g)
next
  have m: "findall_mm (lower ''7 mm'') = [''7'']" by code_simp
  have u: "findall_us (lower ''7 mm'') = []" by code_simp
  have f: "floats [''7''] = Inr [Fin 7]" by (simp add: float_7)
  have g: "mm_fragment (Fin 7) = ''7.0 mm''"
    by (simp add: mm_fragment_def US_NEEDLES_values near_def tolerance_value float_eval)
  show "normalize_needle ''7 mm'' = Inr ''7.0 mm''"
    using normalize_needle_eval [OF _ m f u] by (simp add: g)
qed

theorem closest_entry_not_selected_counterexample:
  "normalize_needle ''3.62 mm'' = Inr ''US 5 (3.62 mm)''
   \<and> float_of_str ''3.62'' = Inr (Fin (4075757662770299 / 1125899906842624))
   \<and> map_of US_NEEDLES ''4'' = Some (Fin (7 / 2))
   \<and> map_of US_NEEDLES ''5'' = Some (Fin (15 / 4))
   \<and> flt (fabs (fsub (Fin (7 / 2)) (Fin (4075757662770299 / 1125899906842624))))
         (fabs (fsub (Fin (15 / 4)) (Fin (4075757662770299 / 1125899906842624))))
   \<and> near (Fin (7 / 2)) (Fin (4075757662770299 / 1125899906842624))
   \<and> near (Fin (15 / 4)) (Fin (4075757662770299 / 1125899906842624))"
proof -
  have m: "findall_mm (lower ''3.62 mm'') = [''3.62'']" by code_simp
  have u: "findall_us (lower ''3.62 mm'') = []" by code_simp
  have f: "floats [''3.62''] = Inr [Fin (4075757662770299 / 1125899906842624)]"
    by (simp add: float_3_62)
  have n: "normalize_needle ''3.62 mm'' = Inr ''US 5 (3.62 mm)''"
    using normalize_needle_eval [OF _ m f u] by (simp add: mm_fragment_3_62)
  have t: "map_of US_NEEDLES ''4'' = Some (Fin (7 / 2))" "map_of US_NEEDLES ''5'' = Some (Fin (15 / 4))"
    by (simp_all add: US_NEEDLES_values)
  have c: "flt (fabs (fsub (Fin (7 / 2)) (Fin (4075757662770299 / 1125899906842624))))
         (fabs (fsub (Fin (15 / 4)) (Fin (4075757662770299 / 1125899906842624))))"
    by (simp add: float_eval)
  have d: "near (Fin (7 / 2)) (Fin (4075757662770299 / 1125899906842624))"
    "near (Fin (15 / 4)) (Fin (4075757662770299 / 1125899906842624))"
    by (simp_all add: near_def tolerance_value float_eval)
  from n float_3_62 t c d show ?thesis by simp
qed

theorem mm_lookup_last_within_tolerance_witness:
  "(5::nat) < length US_NEEDLES
   \<and> US_NEEDLES ! 5 = (''5'', Fin (15 / 4))
   \<and> map (\<lambda>kv. near (snd kv) (Fin (4075757662770299 / 1125899906842624))) US_NEEDLES =
       [False, False, False, False, True, True, False, False,
        False, False, False, False, False, False, False]
   \<and> mm_fragment (Fin (4075757662770299 / 1125899906842624)) = ''US 5 (3.62 mm)''
   \<and> map (\<lambda>kv. near (snd kv) (Fin 7)) US_NEEDLES =
       [False, False, False, False, False, False, False, False,
        False, False, False, False, False, False, False]
   \<and> mm_fragment (Fin 7) = ''7.0 mm''"
proof -
  let ?x = "Fin (4075757662770299 / 1125899906842624)"
  have len: "length US_NEEDLES = 15" by (simp add: US_NEEDLES_def)
  have e5: "US_NEEDLES ! 5 = (''5'', Fin (15 / 4))" by (simp add: US_NEEDLES_values)
  have h1: "near (snd (US_NEEDLES ! 5)) ?x"
  proof -
    have "map (\<lambda>kv. near (snd kv) ?x) US_NEEDLES ! 5" by (simp only: near_3_62) simp
    then show ?thesis using len by simp
  qed
  have h2: "\<forall>j. 5 < j \<and> j < length US_NEEDLES \<longrightarrow> \<not> near (snd (US_NEEDLES ! j)) ?x"
  proof (intro allI impI)
    fix j assume j: "5 < j \<and> j < length US_NEEDLES"
    let ?bs = "drop 6 (map (\<lambda>kv. near (snd kv) ?x) US_NEEDLES)"
    have all: "\<forall>b \<in> set ?bs. \<not> b" by (simp only: near_3_62) simp
    from j len have "j - 6 < length ?bs" by (simp, arith)
    then have "?bs ! (j - 6) \<in> set ?bs" by (rule nth_mem)
    with all have "\<not> ?bs ! (j - 6)" by blast
    moreover from j len have "6 + (j - 6) = j" by arith
    with j len have "?bs ! (j - 6) = near (snd (US_NEEDLES ! j)) ?x" by simp
    ultimately show "\<not> near (snd (US_NEEDLES ! j)) ?x" by simp
  qed
  have h3: "\<forall>i < length US_NEEDLES. \<not> near (snd (US_NEEDLES ! i)) (Fin 7)"
  proof (intro allI impI)
    fix i assume i: "i < length US_NEEDLES"
    let ?bs = "map (\<lambda>kv. near (snd kv) (Fin 7)) US_NEEDLES"
    have all: "\<forall>b \<in> set ?bs. \<not> b" by (simp only: near_7) simp
    from i have "?bs ! i \<in> set ?bs" by (intro nth_mem) simp
    with all have "\<not> ?bs ! i" by blast
    with i show "\<not> near (snd (US_NEEDLES ! i)) (Fin 7)" by simp
  qed
  have "mm_fragment ?x = ''US '' @ fst (US_NEEDLES ! 5) @ '' ('' @ repr ?x @ '' mm)''"
    using mm_lookup_last_within_tolerance [of ?x] h1 h2 len by simp
  then have r1: "mm_fragment ?x = ''US 5 (3.62 mm)''" by (simp add: e5 repr_3_62)
  have "mm_fragment (Fin 7) = repr (Fin 7) @ '' mm''"
    using mm_lookup_last_within_tolerance [of "Fin 7"] h3 by blast
  then have r2: "mm_fragment (Fin 7) = ''7.0 mm''" by (simp add: repr_7)
  from len e5 near_3_62 near_7 r1 r2 show ?thesis by simp
qed

end
